theory Spec2Isabelle
  imports Main
begin

section \<open>Data model of \<open>src/index.ts\<close>\<close>

text \<open>
  \<open>interface Founder { name: string; links: string[] }\<close>. The field \<open>name\<close> of a
  founder is called \<open>founderName\<close> here, after the local variable that holds it in
  \<open>getFoundersDataWithRetries\<close>, because \<open>name\<close> is the field of a company below.
\<close>

record Founder =
  founderName :: string
  links :: "string list"

text \<open>
  The generator \<open>getCompanies\<close> yields objects \<open>{ name, location, link }\<close>;
  \<open>interface Company\<close> has the same three fields and \<open>founders\<close>.
\<close>

record Listing =
  name :: string
  location :: string
  link :: string

record Company = Listing +
  founders :: "Founder list"

text \<open>
  JavaScript truthiness of a value of type \<open>string | null | undefined\<close>: \<open>None\<close> stands
  for \<open>null\<close> and \<open>undefined\<close>, and the empty string is falsy as well.
\<close>

fun truthy :: "string option \<Rightarrow> bool" where
  "truthy None = False"
| "truthy (Some s) = (s \<noteq> [])"

section \<open>Listing traversal: \<open>getCompanies\<close>\<close>

text \<open>
  What the driver answers for one element of \<open>page.$$('._company_lx3q7_339')\<close>:
  \<open>nameText\<close> is \<open>companyNameElement?.innerText()\<close>, \<open>locationText\<close> is
  \<open>companyLocationElement?.innerText()\<close> (both \<open>None\<close> when the child element is
  missing), \<open>hrefAttr\<close> is \<open>companyElement.getAttribute('href')\<close> (\<open>None\<close> for null).
\<close>

record companyElement =
  nameText :: "string option"
  locationText :: "string option"
  hrefAttr :: "string option"

text \<open>
  The template literal \<open>`https://ycombinator.com${route}`\<close>: a null route is
  interpolated as the four characters \<open>null\<close>.
\<close>

definition resolveLink :: "string option \<Rightarrow> string" where
  "resolveLink route =
     ''https://ycombinator.com'' @ (case route of None \<Rightarrow> ''null'' | Some r \<Rightarrow> r)"

text \<open>The body of the inner \<open>for\<close> loop: the record yielded for one element, if any.\<close>

definition yieldOf :: "companyElement \<Rightarrow> Listing option" where
  "yieldOf e =
     (let url = resolveLink (hrefAttr e) in
      if truthy (nameText e) \<and> truthy (locationText e) \<and> truthy (Some url)
      then (case (nameText e, locationText e) of
              (Some n, Some l) \<Rightarrow> Some \<lparr>name = n, location = l, link = url\<rparr>
            | _ \<Rightarrow> None)
      else None)"

fun readCompanies :: "companyElement list \<Rightarrow> Listing list" where
  "readCompanies [] = []"
| "readCompanies (e # es) =
     (case yieldOf e of
        Some y \<Rightarrow> y # readCompanies es
      | None \<Rightarrow> readCompanies es)"

text \<open>
  One pass of the \<open>do ... while\<close> loop as the driver shows it: whether
  \<open>waitForSelector\<close> resolves (it throws otherwise), the elements found, and the value
  \<open>document.body.scrollHeight\<close> returned by \<open>page.evaluate\<close> after scrolling.
\<close>

record pageView =
  selectorFound :: bool
  companies :: "companyElement list"
  scrollHeight :: int

text \<open>
  The loop has no bound of its own, so the simulated driver is a finite script of page
  views: \<open>Pending\<close> is the loop still running when the script is used up, \<open>Threw\<close> an
  exception leaving the generator, \<open>Halted\<close> the loop condition failing.
  \<open>iterations\<close> counts the passes that took a snapshot of the elements.
\<close>

datatype traversalStatus = Halted | Threw | Pending

record traversal =
  status :: traversalStatus
  yielded :: "Listing list"
  iterations :: nat

fun getCompaniesLoop :: "pageView list \<Rightarrow> int \<Rightarrow> Listing list \<Rightarrow> nat \<Rightarrow> traversal" where
  "getCompaniesLoop [] currentHeight ys n =
     \<lparr>status = Pending, yielded = ys, iterations = n\<rparr>"
| "getCompaniesLoop (v # vs) currentHeight ys n =
     (let previousHeight = currentHeight in
      if \<not> selectorFound v then \<lparr>status = Threw, yielded = ys, iterations = n\<rparr>
      else
        (let ys' = ys @ readCompanies (companies v);
             newHeight = scrollHeight v
         in if newHeight > previousHeight
            then getCompaniesLoop vs newHeight ys' (Suc n)
            else \<lparr>status = Halted, yielded = ys', iterations = Suc n\<rparr>))"

text \<open>\<open>let previousHeight; let currentHeight = 0;\<close> and the loop.\<close>

definition getCompanies :: "pageView list \<Rightarrow> traversal" where
  "getCompanies views = getCompaniesLoop views 0 [] 0"

section \<open>Deduplicating collector: the \<open>for await\<close> loop of \<open>main\<close>\<close>

text \<open>
  \<open>companyList\<close> is a \<open>Set<Company>\<close> of freshly built objects, so \<open>add\<close> always
  appends and iteration is in insertion order: the set is a list here.
\<close>

text \<open>The object \<open>{ ...company, founders: [] }\<close>.\<close>

definition withEmptyFounders :: "Listing \<Rightarrow> Company" where
  "withEmptyFounders company =
     \<lparr>name = name company, location = location company, link = link company, founders = []\<rparr>"

definition addCompany :: "Company list \<Rightarrow> Listing \<Rightarrow> Company list" where
  "addCompany cl company =
     (case find (\<lambda>c. name c = name company \<and> location c = location company
                      \<and> link c = link company) cl of
        None \<Rightarrow> cl @ [withEmptyFounders company]
      | Some existingCompany \<Rightarrow> cl)"

definition collectCompanies :: "Listing list \<Rightarrow> Company list" where
  "collectCompanies ys = foldl addCompany [] ys"

text \<open>The identity of a record as the \<open>find\<close> predicate compares it.\<close>

definition identityKey :: "'a Listing_scheme \<Rightarrow> string \<times> string \<times> string" where
  "identityKey r = (name r, location r, link r)"

section \<open>Resilient detail fetcher: \<open>getFoundersDataWithRetries\<close>\<close>

text \<open>
  One \<open>.ycdc-card\<close> element as the driver shows it. \<open>CardError\<close> is an exception
  raised while the card is read. In \<open>Card n ls\<close>, \<open>n\<close> is
  \<open>nameElement?.textContent()\<close> and \<open>ls\<close> is \<open>socials?.$$('a')\<close> given by the
  \<open>href\<close> attribute of each anchor (\<open>None\<close> when the \<open>.space-x-2\<close> container is
  missing).
\<close>

datatype card = CardError | Card "string option" "string option list option"

text \<open>The inner loop over \<open>linkElements\<close>: \<open>if (href) links.push(href)\<close>.\<close>

fun collectLinks :: "string option list \<Rightarrow> string list" where
  "collectLinks [] = []"
| "collectLinks (h # hs) =
     (case h of
        Some href \<Rightarrow> (if href \<noteq> [] then href # collectLinks hs else collectLinks hs)
      | None \<Rightarrow> collectLinks hs)"

text \<open>
  The loop over \<open>founders\<close>, with \<open>founderList\<close> as accumulator; \<open>None\<close> is an
  exception leaving the loop.
\<close>

fun extractFounders :: "card list \<Rightarrow> Founder list \<Rightarrow> Founder list option" where
  "extractFounders [] founderList = Some founderList"
| "extractFounders (CardError # rest) founderList = None"
| "extractFounders (Card n ls # rest) founderList =
     (case ls of
        Some linkElements \<Rightarrow>
          (if truthy n
           then (case n of
                   Some nm \<Rightarrow>
                     extractFounders rest
                       (founderList @ [\<lparr>founderName = nm, links = collectLinks linkElements\<rparr>])
                 | None \<Rightarrow> extractFounders rest founderList)
           else extractFounders rest founderList)
      | None \<Rightarrow> extractFounders rest founderList)"

text \<open>
  What the driver does during one pass of the \<open>try\<close> block: \<open>browser.newPage()\<close>
  rejects; \<open>newPage.goto\<close> rejects; \<open>waitForSelector\<close> times out; or the cards are
  found, and the flag says whether \<open>newPage.close()\<close> resolves.
\<close>

datatype attempt = NewPageError | GotoError | WaitError | Cards "card list" bool

text \<open>
  The browser session as far as the fetcher changes it: the calls of
  \<open>browser.newPage()\<close> so far, the pages they opened and the pages closed.
\<close>

record session =
  newPageCalls :: nat
  pagesOpened :: nat
  pagesClosed :: nat

datatype 'a outcome = Raised | Returned 'a

definition pageOpened :: "session \<Rightarrow> session" where
  "pageOpened s = s\<lparr>newPageCalls := Suc (newPageCalls s), pagesOpened := Suc (pagesOpened s)\<rparr>"

text \<open>The body of the \<open>try\<close> block.\<close>

definition fetchAttempt :: "attempt \<Rightarrow> session \<Rightarrow> Founder list option outcome \<times> session" where
  "fetchAttempt a s =
     (case a of
        NewPageError \<Rightarrow> (Raised, s\<lparr>newPageCalls := Suc (newPageCalls s)\<rparr>)
      | GotoError \<Rightarrow> (Raised, pageOpened s)
      | WaitError \<Rightarrow> (Raised, pageOpened s)
      | Cards cs closes \<Rightarrow>
          (case extractFounders cs [] of
             None \<Rightarrow> (Raised, pageOpened s)
           | Some founderList \<Rightarrow>
               if closes
               then (Returned (if length founderList > 0 then Some founderList else None),
                     (pageOpened s)\<lparr>pagesClosed := Suc (pagesClosed s)\<rparr>)
               else (Raised, pageOpened s)))"

text \<open>
  The driver of the detail pages: its answer to the \<open>k\<close>-th call of
  \<open>browser.newPage()\<close> of the run, made for the given link.
\<close>

type_synonym driver = "nat \<Rightarrow> string \<Rightarrow> attempt"

text \<open>The \<open>while (retries < maxRetries)\<close> loop.\<close>

function retryLoop :: "driver \<Rightarrow> string \<Rightarrow> int \<Rightarrow> nat \<Rightarrow> session \<Rightarrow> Founder list option \<times> session" where
  "retryLoop drv companyLink maxRetries retries s =
     (if int retries < maxRetries
      then (case fetchAttempt (drv (newPageCalls s) companyLink) s of
              (Returned r, s') \<Rightarrow> (r, s')
            | (Raised, s') \<Rightarrow> retryLoop drv companyLink maxRetries (Suc retries) s')
      else (None, s))"
  by pat_completeness auto
termination
  by (relation "measure (\<lambda>(drv, companyLink, maxRetries, retries, s). nat (maxRetries - int retries))") auto

declare retryLoop.simps [simp del]

definition getFoundersDataWithRetries :: "driver \<Rightarrow> string \<Rightarrow> int \<Rightarrow> session \<Rightarrow> Founder list option \<times> session" where
  "getFoundersDataWithRetries drv companyLink maxRetries s = retryLoop drv companyLink maxRetries 0 s"

text \<open>The default value of the parameter \<open>maxRetries\<close>.\<close>

definition defaultMaxRetries :: int where
  "defaultMaxRetries = 3"

section \<open>Streaming enrichment writer and \<open>main\<close>\<close>

text \<open>
  The state of the second loop of \<open>main\<close>: the companies visited so far (as the loop
  left them), the arguments of the calls of \<open>stream.write\<close> so far, and the session.
  \<open>JSON.stringify\<close> is a parameter.
\<close>

record enrichment =
  visited :: "Company list"
  chunks :: "string list"
  browser :: session

definition enrichCompany :: "(Company \<Rightarrow> string) \<Rightarrow> driver \<Rightarrow> enrichment \<Rightarrow> Company \<Rightarrow> enrichment" where
  "enrichCompany stringify drv st company =
     (case getFoundersDataWithRetries drv (link company) defaultMaxRetries (browser st) of
        (Some founderData, s') \<Rightarrow>
          (let company' = company\<lparr>founders := founderData\<rparr>
           in st\<lparr>visited := visited st @ [company'],
                 chunks := chunks st @ [stringify company' @ '',\<newline>''],
                 browser := s'\<rparr>)
      | (None, s') \<Rightarrow> st\<lparr>visited := visited st @ [company], browser := s'\<rparr>)"

definition enrichAll :: "(Company \<Rightarrow> string) \<Rightarrow> driver \<Rightarrow> enrichment \<Rightarrow> Company list \<Rightarrow> enrichment" where
  "enrichAll stringify drv st cl = foldl (enrichCompany stringify drv) st cl"

text \<open>
  The world \<open>main\<close> runs in: whether the browser launches and the listing page opens,
  the script of the listing page, and the driver of the detail pages.
\<close>

record world =
  launches :: bool
  listing :: "pageView list"
  detail :: driver

definition freshSession :: session where
  "freshSession = \<lparr>newPageCalls = 0, pagesOpened = 0, pagesClosed = 0\<rparr>"

text \<open>
  \<open>Aborted\<close>: an exception reached the \<open>catch\<close> of \<open>main\<close> before the stream was
  created, so no file is written. \<open>Unfinished\<close>: the traversal is still running at the
  end of the script. \<open>Completed\<close>: the state after \<open>stream.write(']')\<close>.
\<close>

datatype run = Aborted | Unfinished | Completed enrichment

definition main :: "(Company \<Rightarrow> string) \<Rightarrow> world \<Rightarrow> run" where
  "main stringify w =
     (if \<not> launches w then Aborted
      else
        (let t = getCompanies (listing w) in
         case status t of
           Threw \<Rightarrow> Aborted
         | Pending \<Rightarrow> Unfinished
         | Halted \<Rightarrow>
             (let st = enrichAll stringify (detail w)
                         \<lparr>visited = [], chunks = [''[\<newline>''], browser = freshSession\<rparr>
                         (collectCompanies (yielded t))
              in Completed (st\<lparr>chunks := chunks st @ ['']'']\<rparr>))))"

text \<open>The bytes of the output file: the chunks written, in order.\<close>

definition fileBytes :: "enrichment \<Rightarrow> string" where
  "fileBytes st = concat (chunks st)"

text \<open>
  What the call of \<open>getFoundersDataWithRetries\<close> for the \<open>i\<close>-th company of the set
  returns (for \<open>i\<close> below the size of the set): the loop has visited the companies
  before it.
\<close>

definition fetchedAt :: "(Company \<Rightarrow> string) \<Rightarrow> driver \<Rightarrow> enrichment \<Rightarrow> Company list \<Rightarrow> nat \<Rightarrow> Founder list option" where
  "fetchedAt stringify drv st cl i =
     fst (getFoundersDataWithRetries drv (link (cl ! i)) defaultMaxRetries
            (browser (enrichAll stringify drv st (take i cl))))"

section \<open>JSON texts\<close>

text \<open>
  The grammar of RFC 8259 (ECMA-404) over bytes, to say what a strict parser accepts:
  \<open>json_text\<close> is a value between optional whitespace.
\<close>

definition json_ws_char :: "char \<Rightarrow> bool" where
  "json_ws_char c \<longleftrightarrow> c = CHR 0x20 \<or> c = CHR 0x09 \<or> c = CHR 0x0A \<or> c = CHR 0x0D"

definition json_ws :: "string \<Rightarrow> bool" where
  "json_ws s \<longleftrightarrow> list_all json_ws_char s"

definition json_digit :: "char \<Rightarrow> bool" where
  "json_digit c \<longleftrightarrow> c \<in> set ''0123456789''"

definition json_hex :: "char \<Rightarrow> bool" where
  "json_hex c \<longleftrightarrow> c \<in> set ''0123456789abcdefABCDEF''"

text \<open>
  The characters between the quotes of a string: \<open>0x5C\<close> is the backslash and
  \<open>0x22\<close> the quotation mark.
\<close>

fun json_chars :: "string \<Rightarrow> bool" where
  "json_chars [] = True"
| "json_chars (c # cs) =
     (if c = CHR 0x5C
      then (case cs of
              [] \<Rightarrow> False
            | e # r \<Rightarrow>
                if e = CHR ''u''
                then 4 \<le> length r \<and> list_all json_hex (take 4 r) \<and> json_chars (drop 4 r)
                else e \<in> set [CHR 0x22, CHR 0x5C, CHR ''/'', CHR ''b'', CHR ''f'',
                               CHR ''n'', CHR ''r'', CHR ''t'']
                     \<and> json_chars r)
      else c \<noteq> CHR 0x22 \<and> (0x20 :: nat) \<le> of_char c \<and> json_chars cs)"

definition json_string :: "string \<Rightarrow> bool" where
  "json_string s \<longleftrightarrow> (\<exists>body. s = CHR 0x22 # body @ [CHR 0x22] \<and> json_chars body)"

definition json_digits :: "string \<Rightarrow> bool" where
  "json_digits ds \<longleftrightarrow> ds \<noteq> [] \<and> list_all json_digit ds"

definition json_int :: "string \<Rightarrow> bool" where
  "json_int s \<longleftrightarrow> s = ''0'' \<or> (json_digits s \<and> hd s \<noteq> CHR ''0'')"

definition json_frac :: "string \<Rightarrow> bool" where
  "json_frac s \<longleftrightarrow> s = [] \<or> (\<exists>ds. s = CHR ''.'' # ds \<and> json_digits ds)"

definition json_exp :: "string \<Rightarrow> bool" where
  "json_exp s \<longleftrightarrow>
     s = [] \<or> (\<exists>e sg ds. s = e # sg @ ds \<and> (e = CHR ''e'' \<or> e = CHR ''E'')
                  \<and> (sg = [] \<or> sg = ''+'' \<or> sg = ''-'') \<and> json_digits ds)"

definition json_number :: "string \<Rightarrow> bool" where
  "json_number s \<longleftrightarrow>
     (\<exists>sg i f e. s = sg @ i @ f @ e \<and> (sg = [] \<or> sg = ''-'')
                 \<and> json_int i \<and> json_frac f \<and> json_exp e)"

inductive json_value :: "string \<Rightarrow> bool"
  and json_elements :: "string \<Rightarrow> bool"
  and json_members :: "string \<Rightarrow> bool" where
  Null: "json_value ''null''"
| JTrue: "json_value ''true''"
| JFalse: "json_value ''false''"
| Number: "json_number s \<Longrightarrow> json_value s"
| String: "json_string s \<Longrightarrow> json_value s"
| EmptyArray: "json_ws w \<Longrightarrow> json_value (''['' @ w @ '']'')"
| Array: "json_elements es \<Longrightarrow> json_value (''['' @ es @ '']'')"
| EmptyObject: "json_ws w \<Longrightarrow> json_value (''{'' @ w @ ''}'')"
| Object: "json_members ms \<Longrightarrow> json_value (''{'' @ ms @ ''}'')"
| Element: "json_ws w1 \<Longrightarrow> json_value v \<Longrightarrow> json_ws w2 \<Longrightarrow> json_elements (w1 @ v @ w2)"
| Elements: "json_ws w1 \<Longrightarrow> json_value v \<Longrightarrow> json_ws w2 \<Longrightarrow> json_elements es
    \<Longrightarrow> json_elements (w1 @ v @ w2 @ '','' @ es)"
| Member: "json_ws w1 \<Longrightarrow> json_string k \<Longrightarrow> json_ws w2 \<Longrightarrow> json_ws w3 \<Longrightarrow> json_value v
    \<Longrightarrow> json_ws w4 \<Longrightarrow> json_members (w1 @ k @ w2 @ '':'' @ w3 @ v @ w4)"
| Members: "json_ws w1 \<Longrightarrow> json_string k \<Longrightarrow> json_ws w2 \<Longrightarrow> json_ws w3 \<Longrightarrow> json_value v
    \<Longrightarrow> json_ws w4 \<Longrightarrow> json_members ms
    \<Longrightarrow> json_members (w1 @ k @ w2 @ '':'' @ w3 @ v @ w4 @ '','' @ ms)"

definition json_text :: "string \<Rightarrow> bool" where
  "json_text s \<longleftrightarrow> (\<exists>w1 v w2. s = w1 @ v @ w2 \<and> json_ws w1 \<and> json_value v \<and> json_ws w2)"

text \<open>The equations that run the model on a concrete input.\<close>

lemmas run_simps = main_def getCompanies_def yieldOf_def resolveLink_def collectCompanies_def
  addCompany_def withEmptyFounders_def enrichAll_def enrichCompany_def defaultMaxRetries_def
  getFoundersDataWithRetries_def retryLoop.simps fetchAttempt_def pageOpened_def
  freshSession_def fetchedAt_def fileBytes_def

section \<open>The collector keeps the first emission of every key\<close>

lemma identityKey_withEmptyFounders:
  "identityKey (withEmptyFounders y) = identityKey y"
  by (simp add: withEmptyFounders_def identityKey_def)

lemma withEmptyFounders_cong:
  "identityKey a = identityKey b \<Longrightarrow> withEmptyFounders a = withEmptyFounders b"
  by (simp add: withEmptyFounders_def identityKey_def)

lemma addCompany_cases:
  "addCompany cl y =
     (if identityKey y \<in> identityKey ` set cl then cl else cl @ [withEmptyFounders y])"
proof (cases "find (\<lambda>c. name c = name y \<and> location c = location y \<and> link c = link y) cl")
  case None
  then have "identityKey y \<notin> identityKey ` set cl"
    by (auto simp: find_None_iff identityKey_def)
  with None show ?thesis by (simp add: addCompany_def)
next
  case (Some c)
  then have "c \<in> set cl \<and> identityKey c = identityKey y"
    by (auto simp: find_Some_iff identityKey_def)
  then have "identityKey y \<in> identityKey ` set cl" by force
  with Some show ?thesis by (simp add: addCompany_def)
qed

lemma collect_snoc:
  "collectCompanies (ys @ [y]) = addCompany (collectCompanies ys) y"
  by (simp add: collectCompanies_def)

lemma collect_keys_set: "identityKey ` set (collectCompanies ys) = identityKey ` set ys"
proof (induction ys rule: rev_induct)
  case Nil
  show ?case by (simp add: collectCompanies_def)
next
  case (snoc y ys)
  then show ?case
    by (auto simp: collect_snoc addCompany_cases identityKey_withEmptyFounders)
qed

lemma collect_keys_distinct: "distinct (map identityKey (collectCompanies ys))"
proof (induction ys rule: rev_induct)
  case Nil
  show ?case by (simp add: collectCompanies_def)
next
  case (snoc y ys)
  then show ?case
    by (auto simp: collect_snoc addCompany_cases identityKey_withEmptyFounders)
qed

lemma collect_length: "length (collectCompanies ys) = card (identityKey ` set ys)"
proof -
  have "length (collectCompanies ys) = length (map identityKey (collectCompanies ys))"
    by simp
  also have "\<dots> = card (set (map identityKey (collectCompanies ys)))"
    using collect_keys_distinct by (rule distinct_card[symmetric])
  also have "\<dots> = card (identityKey ` set ys)"
    by (simp add: collect_keys_set)
  finally show ?thesis .
qed

lemma collect_members:
  "c \<in> set (collectCompanies ys) \<Longrightarrow> \<exists>y \<in> set ys. c = withEmptyFounders y"
proof (induction ys rule: rev_induct)
  case Nil
  then show ?case by (simp add: collectCompanies_def)
next
  case (snoc y ys)
  then show ?case by (auto simp: collect_snoc addCompany_cases split: if_splits)
qed

lemma collect_order:
  "map identityKey (collectCompanies ys) = rev (remdups (rev (map identityKey ys)))"
proof (induction ys rule: rev_induct)
  case Nil
  show ?case by (simp add: collectCompanies_def)
next
  case (snoc y ys)
  have "identityKey y \<in> identityKey ` set (collectCompanies ys)
          \<longleftrightarrow> identityKey y \<in> identityKey ` set ys"
    by (simp add: collect_keys_set)
  with snoc show ?case
    by (simp add: collect_snoc addCompany_cases identityKey_withEmptyFounders)
qed

lemma collect_first_emission:
  assumes "c \<in> set (collectCompanies ys)"
  shows "\<exists>i < length ys. identityKey (ys ! i) = identityKey c
            \<and> (\<forall>j < i. identityKey (ys ! j) \<noteq> identityKey c)
            \<and> c = withEmptyFounders (ys ! i)"
proof -
  from assms obtain y where y: "y \<in> set ys" "c = withEmptyFounders y"
    using collect_members by blast
  then obtain k where k: "k < length ys" "ys ! k = y"
    by (auto simp: in_set_conv_nth)
  define Q where "Q i \<longleftrightarrow> i < length ys \<and> identityKey (ys ! i) = identityKey c" for i
  have "Q k"
    using k y by (simp add: Q_def identityKey_withEmptyFounders)
  define i where "i = (LEAST i. Q i)"
  have Qi: "Q i"
    unfolding i_def using \<open>Q k\<close> by (rule LeastI)
  have least: "\<not> Q j" if "j < i" for j
    using that unfolding i_def by (rule not_less_Least)
  have "identityKey (ys ! i) = identityKey y"
    using Qi y by (simp add: Q_def identityKey_withEmptyFounders)
  then have "c = withEmptyFounders (ys ! i)"
    using y withEmptyFounders_cong by metis
  moreover have "\<forall>j < i. identityKey (ys ! j) \<noteq> identityKey c"
  proof (intro allI impI)
    fix j assume "j < i"
    then have "\<not> Q j" by (rule least)
    moreover have "j < length ys" using \<open>j < i\<close> Qi by (simp add: Q_def)
    ultimately show "identityKey (ys ! j) \<noteq> identityKey c" by (simp add: Q_def)
  qed
  ultimately show ?thesis using Qi by (auto simp: Q_def)
qed

lemma collect_duplicate_discarded:
  assumes "identityKey y \<in> identityKey ` set pre"
  shows "collectCompanies (pre @ y # post) = collectCompanies (pre @ post)"
proof -
  have "addCompany (collectCompanies pre) y = collectCompanies pre"
    using assms by (simp add: addCompany_cases collect_keys_set)
  then show ?thesis by (simp add: collectCompanies_def)
qed

text \<open>
  C1. For every finite sequence \<open>ys\<close> of emissions, the set built by the collector has
  as many records as \<open>ys\<close> has distinct (name, location, link) triples, holds no key
  twice, lists the keys in the order of their first emission, and each of its records
  is the first emission of its key with an empty \<open>founders\<close> field. An emission whose
  key was emitted before leaves the set as it was: it is discarded, not merged.
\<close>

theorem dedup_first_emission_wins:
  "length (collectCompanies ys) = card (identityKey ` set ys)
   \<and> distinct (map identityKey (collectCompanies ys))
   \<and> map identityKey (collectCompanies ys) = rev (remdups (rev (map identityKey ys)))
   \<and> (\<forall>c \<in> set (collectCompanies ys).
         \<exists>i < length ys. identityKey (ys ! i) = identityKey c
            \<and> (\<forall>j < i. identityKey (ys ! j) \<noteq> identityKey c)
            \<and> c = withEmptyFounders (ys ! i))
   \<and> (identityKey y \<in> identityKey ` set pre
        \<longrightarrow> collectCompanies (pre @ y # post) = collectCompanies (pre @ post))"
proof (intro conjI ballI impI)
  show "length (collectCompanies ys) = card (identityKey ` set ys)"
    by (rule collect_length)
  show "distinct (map identityKey (collectCompanies ys))"
    by (rule collect_keys_distinct)
  show "map identityKey (collectCompanies ys) = rev (remdups (rev (map identityKey ys)))"
    by (rule collect_order)
next
  fix c assume "c \<in> set (collectCompanies ys)"
  then show "\<exists>i < length ys. identityKey (ys ! i) = identityKey c
            \<and> (\<forall>j < i. identityKey (ys ! j) \<noteq> identityKey c)
            \<and> c = withEmptyFounders (ys ! i)"
    by (rule collect_first_emission)
next
  assume "identityKey y \<in> identityKey ` set pre"
  then show "collectCompanies (pre @ y # post) = collectCompanies (pre @ post)"
    by (rule collect_duplicate_discarded)
qed

theorem dedup_first_emission_wins_witness:
  "card (identityKey ` set
      [\<lparr>name = ''A'', location = ''LocX'', link = ''link1''\<rparr>,
       \<lparr>name = ''A'', location = ''LocX'', link = ''link1''\<rparr>,
       \<lparr>name = ''B'', location = ''LocY'', link = ''link2''\<rparr>]) = 2
   \<and> collectCompanies
        [\<lparr>name = ''A'', location = ''LocX'', link = ''link1''\<rparr>,
         \<lparr>name = ''A'', location = ''LocX'', link = ''link1''\<rparr>,
         \<lparr>name = ''B'', location = ''LocY'', link = ''link2''\<rparr>]
       = [\<lparr>name = ''A'', location = ''LocX'', link = ''link1'', founders = []\<rparr>,
          \<lparr>name = ''B'', location = ''LocY'', link = ''link2'', founders = []\<rparr>]
   \<and> collectCompanies
        ([\<lparr>name = ''A'', location = ''LocX'', link = ''link1''\<rparr>]
          @ \<lparr>name = ''A'', location = ''LocX'', link = ''link1''\<rparr>
          # [\<lparr>name = ''B'', location = ''LocY'', link = ''link2''\<rparr>])
       = collectCompanies
        ([\<lparr>name = ''A'', location = ''LocX'', link = ''link1''\<rparr>]
          @ [\<lparr>name = ''B'', location = ''LocY'', link = ''link2''\<rparr>])"
proof -
  let ?a = "\<lparr>name = ''A'', location = ''LocX'', link = ''link1''\<rparr>"
  let ?b = "\<lparr>name = ''B'', location = ''LocY'', link = ''link2''\<rparr>"
  have key: "identityKey ?a \<in> identityKey ` set [?a]"
    by simp
  have run: "collectCompanies [?a, ?a, ?b]
       = [\<lparr>name = ''A'', location = ''LocX'', link = ''link1'', founders = []\<rparr>,
          \<lparr>name = ''B'', location = ''LocY'', link = ''link2'', founders = []\<rparr>]"
    by (simp add: collectCompanies_def addCompany_def withEmptyFounders_def)
  have len: "length (collectCompanies [?a, ?a, ?b]) = 2"
    by (simp add: run)
  from dedup_first_emission_wins [of "[?a, ?a, ?b]" ?a "[?a]" "[?b]"] key len run
  show ?thesis by simp
qed

section \<open>Listing traversal\<close>

text \<open>
  C2, as stated, fails: with the readings 100, 250, 250 the loop does not stop after
  two passes. The number of passes that collect content is not 2.
\<close>

theorem traversal_two_passes_counterexample:
  "iterations (getCompanies
      [\<lparr>selectorFound = True, companies = [], scrollHeight = 100\<rparr>,
       \<lparr>selectorFound = True, companies = [], scrollHeight = 250\<rparr>,
       \<lparr>selectorFound = True, companies = [], scrollHeight = 250\<rparr>]) \<noteq> 2"
  by (simp add: getCompanies_def)

text \<open>
  C2, amended. The height starts at 0. For a driver whose successive readings of the
  scroll height are 100, 250 and 250, whatever elements the three snapshots hold, the
  loop makes exactly 3 passes that collect content and then halts: the readings 100 and
  250 are each greater than the height before, the second 250 is not. After the first
  two readings alone the loop is still running.
\<close>

theorem traversal_three_passes:
  "getCompanies
      [\<lparr>selectorFound = True, companies = es1, scrollHeight = 100\<rparr>,
       \<lparr>selectorFound = True, companies = es2, scrollHeight = 250\<rparr>,
       \<lparr>selectorFound = True, companies = es3, scrollHeight = 250\<rparr>]
     = \<lparr>status = Halted,
        yielded = readCompanies es1 @ readCompanies es2 @ readCompanies es3,
        iterations = 3\<rparr>
   \<and> status (getCompanies
      [\<lparr>selectorFound = True, companies = es1, scrollHeight = 100\<rparr>,
       \<lparr>selectorFound = True, companies = es2, scrollHeight = 250\<rparr>]) = Pending"
  by (simp add: getCompanies_def)

lemma link_always_truthy: "truthy (Some (resolveLink route))"
  by (simp add: resolveLink_def)

lemma yieldOf_iff:
  "yieldOf e = (case (nameText e, locationText e) of
      (Some n, Some l) \<Rightarrow> if n \<noteq> [] \<and> l \<noteq> []
          then Some \<lparr>name = n, location = l, link = resolveLink (hrefAttr e)\<rparr> else None
    | _ \<Rightarrow> None)"
  by (auto simp: yieldOf_def Let_def resolveLink_def split: option.splits)

text \<open>
  C6. The guard \<open>name && location && link\<close> never fails on \<open>link\<close>: an element with a
  name and a location but no \<open>href\<close> attribute is yielded, with the link
  \<open>https://ycombinator.comnull\<close>, where the claim has it skipped.
\<close>

theorem missing_link_is_yielded:
  "readCompanies [\<lparr>nameText = Some ''Acme'', locationText = Some ''SF'', hrefAttr = None\<rparr>]
     = [\<lparr>name = ''Acme'', location = ''SF'', link = ''https://ycombinator.comnull''\<rparr>]"
  by (simp add: yieldOf_def resolveLink_def)

section \<open>Resilient detail fetcher\<close>

lemma fetchAttempt_calls:
  "newPageCalls (snd (fetchAttempt a s)) = Suc (newPageCalls s)"
  by (simp add: fetchAttempt_def pageOpened_def split: attempt.splits option.splits)

lemma retryLoop_exhausted:
  "\<not> int retries < maxRetries \<Longrightarrow> retryLoop drv l maxRetries retries s = (None, s)"
  by (simp add: retryLoop.simps)

lemma retryLoop_returned:
  "int retries < maxRetries \<Longrightarrow> fetchAttempt (drv (newPageCalls s) l) s = (Returned r, s')
     \<Longrightarrow> retryLoop drv l maxRetries retries s = (r, s')"
  by (simp add: retryLoop.simps)

lemma retryLoop_raised:
  "int retries < maxRetries \<Longrightarrow> fst (fetchAttempt (drv (newPageCalls s) l) s) = Raised
     \<Longrightarrow> retryLoop drv l maxRetries retries s
           = retryLoop drv l maxRetries (Suc retries) (snd (fetchAttempt (drv (newPageCalls s) l) s))"
  by (cases "fetchAttempt (drv (newPageCalls s) l) s") (simp add: retryLoop.simps)

lemma retryLoop_skip:
  "\<forall>i<j. \<forall>t. fst (fetchAttempt (drv (newPageCalls s + i) l) t) = Raised
     \<Longrightarrow> int (retries + j) \<le> maxRetries
     \<Longrightarrow> \<exists>s'. retryLoop drv l maxRetries retries s = retryLoop drv l maxRetries (retries + j) s'
            \<and> newPageCalls s' = newPageCalls s + j"
proof (induction j arbitrary: retries s)
  case 0
  show ?case by (intro exI[of _ s]) simp
next
  case (Suc j)
  let ?s1 = "snd (fetchAttempt (drv (newPageCalls s) l) s)"
  have first: "fst (fetchAttempt (drv (newPageCalls s) l) s) = Raised"
    using Suc.prems(1) by (metis add.right_neutral zero_less_Suc)
  have lt: "int retries < maxRetries" using Suc.prems(2) by simp
  have step: "retryLoop drv l maxRetries retries s = retryLoop drv l maxRetries (Suc retries) ?s1"
    using lt first by (rule retryLoop_raised)
  have calls: "newPageCalls ?s1 = Suc (newPageCalls s)" by (rule fetchAttempt_calls)
  have "\<forall>i<j. \<forall>t. fst (fetchAttempt (drv (newPageCalls ?s1 + i) l) t) = Raised"
  proof (intro allI impI)
    fix i t assume "i < j"
    then have "Suc i < Suc j" by simp
    with Suc.prems(1) have "fst (fetchAttempt (drv (newPageCalls s + Suc i) l) t) = Raised" by blast
    then show "fst (fetchAttempt (drv (newPageCalls ?s1 + i) l) t) = Raised"
      by (simp add: calls)
  qed
  moreover have "int (Suc retries + j) \<le> maxRetries" using Suc.prems(2) by simp
  ultimately obtain s' where "retryLoop drv l maxRetries (Suc retries) ?s1 = retryLoop drv l maxRetries (Suc retries + j) s'"
      "newPageCalls s' = newPageCalls ?s1 + j"
    using Suc.IH by blast
  then show ?case using step calls by (intro exI[of _ s']) simp
qed

lemma retry_all_raise:
  assumes "\<forall>k t. fst (fetchAttempt (drv k l) t) = Raised" and "0 \<le> maxRetries"
  shows "\<exists>s'. getFoundersDataWithRetries drv l maxRetries s = (None, s')
            \<and> int (newPageCalls s') = int (newPageCalls s) + maxRetries"
proof -
  have "\<forall>i<nat maxRetries. \<forall>t. fst (fetchAttempt (drv (newPageCalls s + i) l) t) = Raised"
    using assms(1) by blast
  moreover have "int (0 + nat maxRetries) \<le> maxRetries" using assms(2) by simp
  ultimately obtain s' where s': "retryLoop drv l maxRetries 0 s = retryLoop drv l maxRetries (0 + nat maxRetries) s'"
     "newPageCalls s' = newPageCalls s + nat maxRetries"
    using retryLoop_skip by blast
  have "retryLoop drv l maxRetries (0 + nat maxRetries) s' = (None, s')"
    using assms(2) by (intro retryLoop_exhausted) simp
  with s' show ?thesis using assms(2)
    by (intro exI[of _ s']) (simp add: getFoundersDataWithRetries_def)
qed

lemma fetch_nonpositive:
  "maxRetries \<le> 0 \<Longrightarrow> getFoundersDataWithRetries drv l maxRetries s = (None, s)"
  by (simp add: getFoundersDataWithRetries_def retryLoop_exhausted)

lemma retryLoop_Some_nonempty:
  "retryLoop drv l maxRetries retries s = (Some fd, s') \<Longrightarrow> fd \<noteq> []"
proof (induction drv l maxRetries retries s rule: retryLoop.induct)
  case (1 drv l maxRetries retries s)
  show ?case
  proof (cases "int retries < maxRetries")
    case False
    with "1.prems" show ?thesis by (simp add: retryLoop_exhausted)
  next
    case True
    obtain o1 s1 where a: "fetchAttempt (drv (newPageCalls s) l) s = (o1, s1)" by force
    show ?thesis
    proof (cases o1)
      case Raised
      with a True "1.prems" have "retryLoop drv l maxRetries (Suc retries) s1 = (Some fd, s')"
        by (simp add: retryLoop.simps[of drv l maxRetries retries s])
      with "1.IH"[OF True a[symmetric]] Raised show ?thesis by simp
    next
      case (Returned r)
      with a True "1.prems" have r: "r = Some fd"
        by (simp add: retryLoop.simps[of drv l maxRetries retries s])
      from a Returned r show ?thesis
        by (auto simp: fetchAttempt_def split: attempt.splits option.splits if_splits)
    qed
  qed
qed

lemma extractFounders_acc:
  "extractFounders cs acc = (case extractFounders cs [] of None \<Rightarrow> None | Some fl \<Rightarrow> Some (acc @ fl))"
proof (induction cs arbitrary: acc)
  case Nil
  show ?case by simp
next
  case (Cons c cs)
  show ?case
  proof (cases c)
    case CardError
    then show ?thesis by simp
  next
    case (Card n ls)
    show ?thesis
      using Cons.IH[of acc] Cons.IH[of "acc @ [\<lparr>founderName = the n, links = collectLinks (the ls)\<rparr>]"]
            Cons.IH[of "[\<lparr>founderName = the n, links = collectLinks (the ls)\<rparr>]"]
      by (auto simp: Card split: option.splits)
  qed
qed

lemma extract_Cons_eligible:
  "n \<noteq> [] \<Longrightarrow> extractFounders (Card (Some n) (Some ls) # rest) [] =
     (case extractFounders rest [] of None \<Rightarrow> None
      | Some fl \<Rightarrow> Some (\<lparr>founderName = n, links = collectLinks ls\<rparr> # fl))"
  using extractFounders_acc[of rest "[\<lparr>founderName = n, links = collectLinks ls\<rparr>]"]
  by (cases "extractFounders rest []") simp_all

lemma extract_Cons_skipped:
  "ls = None \<or> \<not> truthy n \<Longrightarrow> extractFounders (Card n ls # rest) [] = extractFounders rest []"
  by (auto split: option.splits)

lemma extract_complete:
  "extractFounders cs [] = Some fl \<Longrightarrow> Card (Some n) (Some ls) \<in> set cs \<Longrightarrow> n \<noteq> []
     \<Longrightarrow> \<lparr>founderName = n, links = collectLinks ls\<rparr> \<in> set fl"
proof (induction cs arbitrary: fl)
  case Nil
  then show ?case by simp
next
  case (Cons c cs)
  show ?case
  proof (cases c)
    case CardError
    with Cons.prems show ?thesis by simp
  next
    case (Card m ks)
    show ?thesis
    proof (cases "ks = None \<or> \<not> truthy m")
      case True
      then have "extractFounders cs [] = Some fl"
        using Cons.prems(1) Card extract_Cons_skipped by simp
      moreover have "Card (Some n) (Some ls) \<in> set cs"
        using Cons.prems(2,3) Card True by auto
      ultimately show ?thesis using Cons.IH Cons.prems(3) by blast
    next
      case False
      then obtain m' ks' where mk: "m = Some m'" "ks = Some ks'" "m' \<noteq> []"
        by (cases m; cases ks) auto
      with Cons.prems(1) Card obtain fl' where fl': "extractFounders cs [] = Some fl'"
          "fl = \<lparr>founderName = m', links = collectLinks ks'\<rparr> # fl'"
        by (auto simp del: extractFounders.simps simp: extract_Cons_eligible split: option.splits)
      show ?thesis
      proof (cases "Card (Some n) (Some ls) = c")
        case True
        with Card mk fl' show ?thesis by simp
      next
        case False
        with Cons.prems(2) have "Card (Some n) (Some ls) \<in> set cs" by auto
        with Cons.IH[OF fl'(1) _ Cons.prems(3)] fl'(2) show ?thesis by simp
      qed
    qed
  qed
qed

lemma extract_sound:
  "extractFounders cs [] = Some fl \<Longrightarrow> f \<in> set fl
     \<Longrightarrow> founderName f \<noteq> []
         \<and> (\<exists>ls. Card (Some (founderName f)) (Some ls) \<in> set cs \<and> links f = collectLinks ls)"
proof (induction cs arbitrary: fl)
  case Nil
  then show ?case by simp
next
  case (Cons c cs)
  show ?case
  proof (cases c)
    case CardError
    with Cons.prems show ?thesis by simp
  next
    case (Card m ks)
    show ?thesis
    proof (cases "ks = None \<or> \<not> truthy m")
      case True
      then have "extractFounders cs [] = Some fl"
        using Cons.prems(1) Card extract_Cons_skipped by simp
      from Cons.IH[OF this Cons.prems(2)] show ?thesis by auto
    next
      case False
      then obtain m' ks' where mk: "m = Some m'" "ks = Some ks'" "m' \<noteq> []"
        by (cases m; cases ks) auto
      with Cons.prems(1) Card obtain fl' where fl': "extractFounders cs [] = Some fl'"
          "fl = \<lparr>founderName = m', links = collectLinks ks'\<rparr> # fl'"
        by (auto simp del: extractFounders.simps simp: extract_Cons_eligible split: option.splits)
      show ?thesis
      proof (cases "f \<in> set fl'")
        case True
        from Cons.IH[OF fl'(1) True] show ?thesis by auto
      next
        case False
        with Cons.prems(2) fl'(2) have "f = \<lparr>founderName = m', links = collectLinks ks'\<rparr>" by simp
        with Card mk show ?thesis by auto
      qed
    qed
  qed
qed

lemma fetch_completes_at:
  assumes "int j < maxRetries"
      and "\<forall>i<j. \<forall>t. fst (fetchAttempt (drv (newPageCalls s + i) l) t) = Raised"
      and "drv (newPageCalls s + j) l = Cards cs True"
      and "extractFounders cs [] = Some fl"
  shows "fst (getFoundersDataWithRetries drv l maxRetries s) = (if fl = [] then None else Some fl)
       \<and> newPageCalls (snd (getFoundersDataWithRetries drv l maxRetries s)) = newPageCalls s + j + 1"
proof -
  have "int (0 + j) \<le> maxRetries" using assms(1) by simp
  then obtain s1 where s1: "retryLoop drv l maxRetries 0 s = retryLoop drv l maxRetries (0 + j) s1"
      "newPageCalls s1 = newPageCalls s + j"
    using retryLoop_skip[of j drv s l 0 maxRetries] assms(2) by blast
  have att: "fetchAttempt (drv (newPageCalls s1) l) s1
      = (Returned (if fl = [] then None else Some fl),
         (pageOpened s1)\<lparr>pagesClosed := Suc (pagesClosed s1)\<rparr>)"
    using assms(3,4) s1(2) by (simp add: fetchAttempt_def)
  have "retryLoop drv l maxRetries j s1
      = (if fl = [] then None else Some fl, (pageOpened s1)\<lparr>pagesClosed := Suc (pagesClosed s1)\<rparr>)"
    using assms(1) att by (rule retryLoop_returned)
  with s1 have "getFoundersDataWithRetries drv l maxRetries s
      = (if fl = [] then None else Some fl, (pageOpened s1)\<lparr>pagesClosed := Suc (pagesClosed s1)\<rparr>)"
    by (simp add: getFoundersDataWithRetries_def)
  then show ?thesis using s1(2) by (simp add: pageOpened_def)
qed

text \<open>
  C5. \<open>newPage.close()\<close> stands on the success path of the \<open>try\<close> block only. For a
  link whose page never shows a card, the three attempts open three pages and the
  fetcher returns with none of them closed, where the claim has every attempt close
  the page it opened.
\<close>

theorem failed_attempts_leave_pages_open:
  "getFoundersDataWithRetries (\<lambda>k l. WaitError) ''https://ycombinator.com/companies/acme''
      defaultMaxRetries freshSession
     = (None, \<lparr>newPageCalls = 3, pagesOpened = 3, pagesClosed = 0\<rparr>)"
  by (simp add: getFoundersDataWithRetries_def defaultMaxRetries_def freshSession_def
      retryLoop.simps fetchAttempt_def pageOpened_def)

text \<open>
  C10. With \<open>maxRetries\<close> zero or negative the fetcher makes no attempt: it returns
  the absent result and leaves the session as it was (no call of \<open>browser.newPage()\<close>,
  no page opened).
\<close>

theorem no_attempt_without_retries:
  "maxRetries \<le> 0 \<Longrightarrow> getFoundersDataWithRetries drv companyLink maxRetries s = (None, s)"
  by (simp add: getFoundersDataWithRetries_def retryLoop_exhausted)

theorem no_attempt_without_retries_witness:
  "getFoundersDataWithRetries (\<lambda>k l. Cards [Card (Some ''Jo'') (Some [])] True) ''link1'' 0 freshSession
      = (None, freshSession)
   \<and> getFoundersDataWithRetries (\<lambda>k l. Cards [Card (Some ''Jo'') (Some [])] True) ''link1'' (- 2) freshSession
      = (None, freshSession)
   \<and> fst (getFoundersDataWithRetries (\<lambda>k l. Cards [Card (Some ''Jo'') (Some [])] True) ''link1'' 1 freshSession)
      = Some [\<lparr>founderName = ''Jo'', links = []\<rparr>]"
proof -
  have "(0::int) \<le> 0" and "(- 2::int) \<le> 0" by simp_all
  from no_attempt_without_retries [OF this(1)] no_attempt_without_retries [OF this(2)]
  show ?thesis
    by (simp add: getFoundersDataWithRetries_def retryLoop.simps fetchAttempt_def)
qed

text \<open>
  C7, as stated, fails: a card whose name is extracted but whose \<open>.space-x-2\<close>
  container is missing has no social links extracted and is not recorded; the fetcher
  returns the absent result for a page that holds only this card.
\<close>

theorem name_without_links_container_counterexample:
  "extractFounders [Card (Some ''Jo'') None] [] = Some []
   \<and> fst (getFoundersDataWithRetries (\<lambda>k l. Cards [Card (Some ''Jo'') None] True)
            ''link1'' defaultMaxRetries freshSession) = None"
  by (simp add: getFoundersDataWithRetries_def defaultMaxRetries_def retryLoop.simps fetchAttempt_def)

text \<open>
  C7, amended. In an attempt that completes (the attempts before it having raised,
  within \<open>maxRetries\<close>), every card from which a non-empty name was
  extracted and whose links container was found is recorded in the fetcher's result,
  with the links extracted from it, and so with the empty sequence when no link was
  extracted; a person is in the result only if a non-empty name was extracted from a
  card whose links container was found.
\<close>

theorem named_person_recorded:
  assumes "int j < maxRetries"
      and "\<forall>i<j. \<forall>t. fst (fetchAttempt (drv (newPageCalls s + i) companyLink) t) = Raised"
      and "drv (newPageCalls s + j) companyLink = Cards cs True"
      and "extractFounders cs [] = Some fl"
  shows "(\<forall>n ls. Card (Some n) (Some ls) \<in> set cs \<and> n \<noteq> [] \<longrightarrow>
            fst (getFoundersDataWithRetries drv companyLink maxRetries s) = Some fl
            \<and> \<lparr>founderName = n, links = collectLinks ls\<rparr> \<in> set fl)
       \<and> (\<forall>n. Card (Some n) (Some []) \<in> set cs \<and> n \<noteq> [] \<longrightarrow>
            \<lparr>founderName = n, links = []\<rparr> \<in> set fl)
       \<and> (\<forall>f \<in> set fl. founderName f \<noteq> []
            \<and> (\<exists>ls. Card (Some (founderName f)) (Some ls) \<in> set cs \<and> links f = collectLinks ls))"
proof (intro conjI allI impI ballI)
  fix n ls assume c: "Card (Some n) (Some ls) \<in> set cs \<and> n \<noteq> []"
  then show mem: "\<lparr>founderName = n, links = collectLinks ls\<rparr> \<in> set fl"
    using extract_complete[OF assms(4)] by blast
  then have "fl \<noteq> []" by auto
  then show "fst (getFoundersDataWithRetries drv companyLink maxRetries s) = Some fl"
    using fetch_completes_at[of j maxRetries drv s companyLink cs fl] assms by simp
next
  fix n assume "Card (Some n) (Some []) \<in> set cs \<and> n \<noteq> []"
  then show "\<lparr>founderName = n, links = []\<rparr> \<in> set fl"
    using extract_complete[OF assms(4), of n "[]"] by simp
next
  fix f assume "f \<in> set fl"
  then show "founderName f \<noteq> []"
    and "\<exists>ls. Card (Some (founderName f)) (Some ls) \<in> set cs \<and> links f = collectLinks ls"
    using extract_sound[OF assms(4)] by blast+
qed

theorem named_person_recorded_witness:
  "fst (getFoundersDataWithRetries
          (\<lambda>k l. if k = 0 then WaitError
                  else Cards [Card (Some ''Jo'') (Some []),
                              Card None (Some [Some ''https://x.com/a'']),
                              Card (Some ''Al'') None] True)
          ''link1'' 3 freshSession)
     = Some [\<lparr>founderName = ''Jo'', links = []\<rparr>]"
proof -
  let ?cs = "[Card (Some ''Jo'') (Some []), Card None (Some [Some ''https://x.com/a'']),
              Card (Some ''Al'') None]"
  let ?drv = "\<lambda>(k::nat) (l::string). if k = 0 then WaitError else Cards ?cs True"
  have a: "int 1 < 3" by simp
  have b: "\<forall>i<1. \<forall>t. fst (fetchAttempt (?drv (newPageCalls freshSession + i) ''link1'') t) = Raised"
    by (simp add: fetchAttempt_def freshSession_def)
  have c: "?drv (newPageCalls freshSession + 1) ''link1'' = Cards ?cs True" by simp
  have d: "extractFounders ?cs [] = Some [\<lparr>founderName = ''Jo'', links = []\<rparr>]" by simp
  have e: "Card (Some ''Jo'') (Some []) \<in> set ?cs \<and> ''Jo'' \<noteq> []" by simp
  from named_person_recorded [of 1 3 ?drv freshSession "''link1''" ?cs
        "[\<lparr>founderName = ''Jo'', links = []\<rparr>]"] a b c d e
  show ?thesis by blast
qed

text \<open>
  C8, as stated, fails: \<open>newPage.close()\<close> stands inside the \<open>try\<close> block, after the
  extraction. When the extraction completes without an exception and yields zero
  persons but \<open>close()\<close> then rejects, the attempt counts as failed and is retried; a
  later attempt that finds a person makes the result a sequence, not absent.
\<close>

theorem close_rejects_after_zero_persons_counterexample:
  "extractFounders [Card None (Some [])] [] = Some []
   \<and> fst (getFoundersDataWithRetries
            (\<lambda>k l. if k = 0 then Cards [Card None (Some [])] False
                    else Cards [Card (Some ''Jo'') (Some [])] True)
            ''link1'' defaultMaxRetries freshSession)
       = Some [\<lparr>founderName = ''Jo'', links = []\<rparr>]"
  by (simp add: getFoundersDataWithRetries_def defaultMaxRetries_def freshSession_def
      retryLoop.simps fetchAttempt_def pageOpened_def)

text \<open>
  C8, amended. If the attempts before the \<open>j\<close>-th raise and the \<open>j\<close>-th, still within
  \<open>maxRetries\<close>, completes without an exception (the extraction and the call of
  \<open>newPage.close()\<close> after it) with zero persons, the fetcher returns the absent result
  after that attempt, without another one: the same result as for a link whose every
  attempt raises.
\<close>

theorem zero_persons_is_absent:
  assumes "int j < maxRetries"
      and "\<forall>i<j. \<forall>t. fst (fetchAttempt (drv (newPageCalls s + i) companyLink) t) = Raised"
      and "drv (newPageCalls s + j) companyLink = Cards cs True"
      and "extractFounders cs [] = Some []"
  shows "fst (getFoundersDataWithRetries drv companyLink maxRetries s) = None
       \<and> newPageCalls (snd (getFoundersDataWithRetries drv companyLink maxRetries s))
           = newPageCalls s + j + 1
       \<and> ((\<forall>k t. fst (fetchAttempt (drv' k companyLink) t) = Raised) \<longrightarrow>
             fst (getFoundersDataWithRetries drv' companyLink maxRetries s)
               = fst (getFoundersDataWithRetries drv companyLink maxRetries s))"
proof -
  have res: "fst (getFoundersDataWithRetries drv companyLink maxRetries s) = None
      \<and> newPageCalls (snd (getFoundersDataWithRetries drv companyLink maxRetries s))
           = newPageCalls s + j + 1"
    using fetch_completes_at[of j maxRetries drv s companyLink cs "[]"] assms by simp
  have "fst (getFoundersDataWithRetries drv' companyLink maxRetries s) = None"
    if "\<forall>k t. fst (fetchAttempt (drv' k companyLink) t) = Raised"
  proof -
    have "0 \<le> maxRetries" using assms(1) by simp
    with that obtain s' where "getFoundersDataWithRetries drv' companyLink maxRetries s = (None, s')"
      using retry_all_raise[of drv' companyLink maxRetries s] by blast
    then show ?thesis by simp
  qed
  then show ?thesis using res by simp
qed

theorem zero_persons_is_absent_witness:
  "getFoundersDataWithRetries
      (\<lambda>k l. if k = 0 then GotoError else Cards [Card None (Some [Some ''https://x.com/a''])] True)
      ''link1'' 3 freshSession
     = (None, \<lparr>newPageCalls = 2, pagesOpened = 2, pagesClosed = 1\<rparr>)
   \<and> fst (getFoundersDataWithRetries (\<lambda>k l. WaitError) ''link1'' 3 freshSession)
     = fst (getFoundersDataWithRetries
      (\<lambda>k l. if k = 0 then GotoError else Cards [Card None (Some [Some ''https://x.com/a''])] True)
      ''link1'' 3 freshSession)"
proof -
  let ?cs = "[Card None (Some [Some ''https://x.com/a''])]"
  let ?drv = "\<lambda>(k::nat) (l::string). if k = 0 then GotoError else Cards ?cs True"
  have a: "int 1 < 3" by simp
  have b: "\<forall>i<1. \<forall>t. fst (fetchAttempt (?drv (newPageCalls freshSession + i) ''link1'') t) = Raised"
    by (simp add: fetchAttempt_def freshSession_def)
  have c: "?drv (newPageCalls freshSession + 1) ''link1'' = Cards ?cs True" by simp
  have d: "extractFounders ?cs [] = Some []" by simp
  have e: "\<forall>k t. fst (fetchAttempt ((\<lambda>(k::nat) (l::string). WaitError) k ''link1'') t) = Raised"
    by (simp add: fetchAttempt_def)
  have run: "getFoundersDataWithRetries ?drv ''link1'' 3 freshSession
     = (None, \<lparr>newPageCalls = 2, pagesOpened = 2, pagesClosed = 1\<rparr>)"
    by (simp add: getFoundersDataWithRetries_def freshSession_def retryLoop.simps
        fetchAttempt_def pageOpened_def)
  from zero_persons_is_absent [of 1 3 ?drv freshSession "''link1''" ?cs
        "\<lambda>(k::nat) (l::string). WaitError"] a b c d e
  have "fst (getFoundersDataWithRetries (\<lambda>k l. WaitError) ''link1'' 3 freshSession)
     = fst (getFoundersDataWithRetries ?drv ''link1'' 3 freshSession)"
    by blast
  with run show ?thesis by simp
qed

section \<open>Streaming enrichment writer\<close>

lemma enrichAll_Cons:
  "enrichAll stringify drv st (c # cl) = enrichAll stringify drv (enrichCompany stringify drv st c) cl"
  by (simp add: enrichAll_def)

lemma enrichAll_append:
  "enrichAll stringify drv st (xs @ ys) = enrichAll stringify drv (enrichAll stringify drv st xs) ys"
  by (simp add: enrichAll_def)

lemma enrichAll_take_Suc:
  "i < length cl \<Longrightarrow> enrichAll stringify drv st (take (Suc i) cl)
      = enrichCompany stringify drv (enrichAll stringify drv st (take i cl)) (cl ! i)"
  by (simp add: take_Suc_conv_app_nth enrichAll_def)

lemma enrichCompany_absent:
  "fst (getFoundersDataWithRetries drv (link c) defaultMaxRetries (browser st)) = None
   \<Longrightarrow> enrichCompany stringify drv st c
       = st\<lparr>visited := visited st @ [c],
             browser := snd (getFoundersDataWithRetries drv (link c) defaultMaxRetries (browser st))\<rparr>"
  by (cases "getFoundersDataWithRetries drv (link c) defaultMaxRetries (browser st)")
     (simp add: enrichCompany_def)

lemma enrichCompany_found:
  "fst (getFoundersDataWithRetries drv (link c) defaultMaxRetries (browser st)) = Some fd
   \<Longrightarrow> enrichCompany stringify drv st c
       = st\<lparr>visited := visited st @ [c\<lparr>founders := fd\<rparr>],
             chunks := chunks st @ [stringify (c\<lparr>founders := fd\<rparr>) @ '',\<newline>''],
             browser := snd (getFoundersDataWithRetries drv (link c) defaultMaxRetries (browser st))\<rparr>"
  by (cases "getFoundersDataWithRetries drv (link c) defaultMaxRetries (browser st)")
     (simp add: enrichCompany_def Let_def)

lemma enrichCompany_chunks_length:
  "length (chunks (enrichCompany stringify drv st c))
     = length (chunks st)
       + (if fst (getFoundersDataWithRetries drv (link c) defaultMaxRetries (browser st)) = None
          then 0 else 1)"
  by (cases "fst (getFoundersDataWithRetries drv (link c) defaultMaxRetries (browser st))")
     (simp_all add: enrichCompany_absent enrichCompany_found)

lemma fetchedAt_snoc:
  "i < length xs \<Longrightarrow> fetchedAt stringify drv st (xs @ [x]) i = fetchedAt stringify drv st xs i"
  by (simp add: fetchedAt_def nth_append)

lemma enrichAll_chunks_count:
  "length (chunks (enrichAll stringify drv st cl))
     = length (chunks st)
       + length (filter (\<lambda>k. fetchedAt stringify drv st cl k \<noteq> None) [0..<length cl])"
proof (induction cl rule: rev_induct)
  case Nil
  show ?case by (simp add: enrichAll_def)
next
  case (snoc x xs)
  have same: "filter (\<lambda>k. fetchedAt stringify drv st (xs @ [x]) k \<noteq> None) [0..<length xs]
        = filter (\<lambda>k. fetchedAt stringify drv st xs k \<noteq> None) [0..<length xs]"
    by (rule filter_cong) (simp_all add: fetchedAt_snoc)
  have last: "fetchedAt stringify drv st (xs @ [x]) (length xs)
        = fst (getFoundersDataWithRetries drv (link x) defaultMaxRetries
                 (browser (enrichAll stringify drv st xs)))"
    by (simp add: fetchedAt_def)
  have "length (chunks (enrichAll stringify drv st (xs @ [x])))
      = length (chunks (enrichAll stringify drv st xs))
        + (if fetchedAt stringify drv st (xs @ [x]) (length xs) = None then 0 else 1)"
    by (simp add: enrichAll_append enrichAll_def enrichCompany_chunks_length last)
  then show ?case using snoc.IH same by simp
qed

lemma enrichAll_visited:
  "visited (enrichAll stringify drv st cl)
     = visited st
       @ map (\<lambda>k. case fetchedAt stringify drv st cl k of
                     Some fd \<Rightarrow> (cl ! k)\<lparr>founders := fd\<rparr>
                   | None \<Rightarrow> cl ! k) [0..<length cl]"
proof (induction cl rule: rev_induct)
  case Nil
  show ?case by (simp add: enrichAll_def)
next
  case (snoc x xs)
  let ?before = "enrichAll stringify drv st xs"
  have same: "map (\<lambda>k. case fetchedAt stringify drv st (xs @ [x]) k of
                     Some fd \<Rightarrow> ((xs @ [x]) ! k)\<lparr>founders := fd\<rparr>
                   | None \<Rightarrow> (xs @ [x]) ! k) [0..<length xs]
        = map (\<lambda>k. case fetchedAt stringify drv st xs k of
                     Some fd \<Rightarrow> (xs ! k)\<lparr>founders := fd\<rparr>
                   | None \<Rightarrow> xs ! k) [0..<length xs]"
    by (rule map_cong) (simp_all add: fetchedAt_snoc nth_append split: option.splits)
  have last: "fetchedAt stringify drv st (xs @ [x]) (length xs)
        = fst (getFoundersDataWithRetries drv (link x) defaultMaxRetries (browser ?before))"
    by (simp add: fetchedAt_def)
  have step: "visited (enrichCompany stringify drv ?before x)
        = visited ?before
          @ [case fetchedAt stringify drv st (xs @ [x]) (length xs) of
               Some fd \<Rightarrow> x\<lparr>founders := fd\<rparr> | None \<Rightarrow> x]"
  proof (cases "fst (getFoundersDataWithRetries drv (link x) defaultMaxRetries (browser ?before))")
    case None
    then show ?thesis by (simp add: last enrichCompany_absent)
  next
    case (Some fd)
    then show ?thesis by (simp add: last enrichCompany_found)
  qed
  have "enrichAll stringify drv st (xs @ [x]) = enrichCompany stringify drv ?before x"
    by (simp add: enrichAll_def)
  then show ?case using snoc.IH step same by (simp split: option.splits)
qed

lemma filter_upt_strict:
  assumes "i < n" "\<not> P i"
  shows "length (filter P [0..<n]) < n"
proof -
  have "i \<in> set [0..<n]" using assms(1) by simp
  then have "length (filter P [0..<n]) < length [0..<n]"
    using assms(2) by (intro length_filter_less) auto
  then show ?thesis by simp
qed

text \<open>
  C4. For the \<open>i\<close>-th company of the set: if the fetcher returns a sequence, the
  company is left with that sequence as \<open>founders\<close> and its serialized form, followed
  by a comma and a newline, is appended to the stream; if the fetcher returns absent,
  the company is left as it was and nothing is written, and the stream ends with fewer
  records than the set has companies. The records written are as many as the
  companies for which the fetcher returned a sequence.
\<close>

theorem drop_on_failure:
  assumes "i < length cl"
  shows "(\<forall>fd. fetchedAt stringify drv st cl i = Some fd \<longrightarrow>
            visited (enrichAll stringify drv st (take (Suc i) cl))
              = visited (enrichAll stringify drv st (take i cl)) @ [(cl ! i)\<lparr>founders := fd\<rparr>]
          \<and> chunks (enrichAll stringify drv st (take (Suc i) cl))
              = chunks (enrichAll stringify drv st (take i cl))
                @ [stringify ((cl ! i)\<lparr>founders := fd\<rparr>) @ '',\<newline>''])
       \<and> (fetchedAt stringify drv st cl i = None \<longrightarrow>
            visited (enrichAll stringify drv st (take (Suc i) cl))
              = visited (enrichAll stringify drv st (take i cl)) @ [cl ! i]
          \<and> chunks (enrichAll stringify drv st (take (Suc i) cl))
              = chunks (enrichAll stringify drv st (take i cl))
          \<and> length (chunks (enrichAll stringify drv st cl)) < length (chunks st) + length cl)
       \<and> length (chunks (enrichAll stringify drv st cl))
           = length (chunks st)
             + length (filter (\<lambda>k. fetchedAt stringify drv st cl k \<noteq> None) [0..<length cl])"
proof (intro conjI allI impI)
  fix fd assume "fetchedAt stringify drv st cl i = Some fd"
  then have found: "fst (getFoundersDataWithRetries drv (link (cl ! i)) defaultMaxRetries
        (browser (enrichAll stringify drv st (take i cl)))) = Some fd"
    by (simp add: fetchedAt_def)
  show "visited (enrichAll stringify drv st (take (Suc i) cl))
          = visited (enrichAll stringify drv st (take i cl)) @ [(cl ! i)\<lparr>founders := fd\<rparr>]"
    using assms by (simp add: enrichAll_take_Suc enrichCompany_found[OF found])
  show "chunks (enrichAll stringify drv st (take (Suc i) cl))
          = chunks (enrichAll stringify drv st (take i cl))
            @ [stringify ((cl ! i)\<lparr>founders := fd\<rparr>) @ '',\<newline>'']"
    using assms by (simp add: enrichAll_take_Suc enrichCompany_found[OF found])
next
  assume absent: "fetchedAt stringify drv st cl i = None"
  then have none: "fst (getFoundersDataWithRetries drv (link (cl ! i)) defaultMaxRetries
        (browser (enrichAll stringify drv st (take i cl)))) = None"
    by (simp add: fetchedAt_def)
  show "visited (enrichAll stringify drv st (take (Suc i) cl))
          = visited (enrichAll stringify drv st (take i cl)) @ [cl ! i]"
    using assms by (simp add: enrichAll_take_Suc enrichCompany_absent[OF none])
  show "chunks (enrichAll stringify drv st (take (Suc i) cl))
          = chunks (enrichAll stringify drv st (take i cl))"
    using assms by (simp add: enrichAll_take_Suc enrichCompany_absent[OF none])
  have "length (filter (\<lambda>k. fetchedAt stringify drv st cl k \<noteq> None) [0..<length cl]) < length cl"
    using assms absent by (intro filter_upt_strict[of i]) simp_all
  then show "length (chunks (enrichAll stringify drv st cl)) < length (chunks st) + length cl"
    by (simp add: enrichAll_chunks_count)
next
  show "length (chunks (enrichAll stringify drv st cl))
           = length (chunks st)
             + length (filter (\<lambda>k. fetchedAt stringify drv st cl k \<noteq> None) [0..<length cl])"
    by (rule enrichAll_chunks_count)
qed

theorem drop_on_failure_witness:
  "fetchedAt (\<lambda>c. ''{'' @ name c @ ''}'')
      (\<lambda>k l. if l = ''link1''
              then Cards [Card (Some ''Jo'') (Some [Some ''https://x.com/jo''])] True
              else WaitError)
      \<lparr>visited = [], chunks = [''[\<newline>''], browser = freshSession\<rparr>
      [\<lparr>name = ''B'', location = ''LocY'', link = ''link2'', founders = []\<rparr>,
       \<lparr>name = ''A'', location = ''LocX'', link = ''link1'', founders = []\<rparr>] 0 = None
   \<and> fetchedAt (\<lambda>c. ''{'' @ name c @ ''}'')
      (\<lambda>k l. if l = ''link1''
              then Cards [Card (Some ''Jo'') (Some [Some ''https://x.com/jo''])] True
              else WaitError)
      \<lparr>visited = [], chunks = [''[\<newline>''], browser = freshSession\<rparr>
      [\<lparr>name = ''B'', location = ''LocY'', link = ''link2'', founders = []\<rparr>,
       \<lparr>name = ''A'', location = ''LocX'', link = ''link1'', founders = []\<rparr>] 1
       = Some [\<lparr>founderName = ''Jo'', links = [''https://x.com/jo'']\<rparr>]
   \<and> chunks (enrichAll (\<lambda>c. ''{'' @ name c @ ''}'')
      (\<lambda>k l. if l = ''link1''
              then Cards [Card (Some ''Jo'') (Some [Some ''https://x.com/jo''])] True
              else WaitError)
      \<lparr>visited = [], chunks = [''[\<newline>''], browser = freshSession\<rparr>
      [\<lparr>name = ''B'', location = ''LocY'', link = ''link2'', founders = []\<rparr>,
       \<lparr>name = ''A'', location = ''LocX'', link = ''link1'', founders = []\<rparr>])
       = [''[\<newline>'', ''{A},\<newline>'']
   \<and> length (chunks (enrichAll (\<lambda>c. ''{'' @ name c @ ''}'')
      (\<lambda>k l. if l = ''link1''
              then Cards [Card (Some ''Jo'') (Some [Some ''https://x.com/jo''])] True
              else WaitError)
      \<lparr>visited = [], chunks = [''[\<newline>''], browser = freshSession\<rparr>
      [\<lparr>name = ''B'', location = ''LocY'', link = ''link2'', founders = []\<rparr>,
       \<lparr>name = ''A'', location = ''LocX'', link = ''link1'', founders = []\<rparr>])) < 1 + 2"
proof -
  let ?f = "\<lambda>c::Company. ''{'' @ name c @ ''}''"
  let ?drv = "\<lambda>(k::nat) l. if l = ''link1''
              then Cards [Card (Some ''Jo'') (Some [Some ''https://x.com/jo''])] True
              else WaitError"
  let ?st = "\<lparr>visited = [], chunks = [''[\<newline>''], browser = freshSession\<rparr>"
  let ?cl = "[\<lparr>name = ''B'', location = ''LocY'', link = ''link2'', founders = []\<rparr>,
       \<lparr>name = ''A'', location = ''LocX'', link = ''link1'', founders = []\<rparr>]"
  have i0: "(0::nat) < length ?cl" and i1: "(1::nat) < length ?cl" by simp_all
  have absent: "fetchedAt ?f ?drv ?st ?cl 0 = None"
    by (simp add: run_simps)
  have found: "fetchedAt ?f ?drv ?st ?cl 1 = Some [\<lparr>founderName = ''Jo'', links = [''https://x.com/jo'']\<rparr>]"
    by (simp add: run_simps)
  have before1: "chunks (enrichAll ?f ?drv ?st (take 1 ?cl)) = [''[\<newline>'']"
    by (simp add: run_simps)
  from drop_on_failure [OF i0, of ?f ?drv ?st] absent
  have less: "length (chunks (enrichAll ?f ?drv ?st ?cl)) < length (chunks ?st) + length ?cl"
    by blast
  from drop_on_failure [OF i1, of ?f ?drv ?st] found
  have "chunks (enrichAll ?f ?drv ?st (take (Suc 1) ?cl))
        = chunks (enrichAll ?f ?drv ?st (take 1 ?cl))
          @ [?f ((?cl ! 1)\<lparr>founders := [\<lparr>founderName = ''Jo'', links = [''https://x.com/jo'']\<rparr>]\<rparr>) @ '',\<newline>'']"
    by blast
  then have "chunks (enrichAll ?f ?drv ?st ?cl) = [''[\<newline>'', ''{A},\<newline>'']"
    using before1 by simp
  with absent found less show ?thesis by simp
qed

text \<open>
  C3. When every attempt for the link of a company raises an exception, the fetcher
  returns the absent result after exactly \<open>maxRetries\<close> calls of \<open>browser.newPage()\<close>
  (one per attempt; three with the default that \<open>main\<close> uses), and the loop of
  \<open>main\<close> goes on with the companies after it, having written nothing for this one.
\<close>

theorem retry_exhaustion:
  assumes "\<forall>k t. fst (fetchAttempt (drv k (link company)) t) = Raised"
      and "0 \<le> maxRetries"
  shows "fst (getFoundersDataWithRetries drv (link company) maxRetries s) = None
       \<and> int (newPageCalls (snd (getFoundersDataWithRetries drv (link company) maxRetries s)))
           = int (newPageCalls s) + maxRetries
       \<and> newPageCalls (snd (getFoundersDataWithRetries drv (link company) defaultMaxRetries
                                 (browser st)))
           = newPageCalls (browser st) + 3
       \<and> enrichAll stringify drv st (company # rest)
           = enrichAll stringify drv
               (st\<lparr>visited := visited st @ [company],
                    browser := snd (getFoundersDataWithRetries drv (link company)
                                      defaultMaxRetries (browser st))\<rparr>) rest"
proof -
  obtain s' where s': "getFoundersDataWithRetries drv (link company) maxRetries s = (None, s')"
      "int (newPageCalls s') = int (newPageCalls s) + maxRetries"
    using retry_all_raise[of drv "link company" maxRetries s] assms by blast
  have "0 \<le> defaultMaxRetries" by (simp add: defaultMaxRetries_def)
  then obtain s'' where s'':
      "getFoundersDataWithRetries drv (link company) defaultMaxRetries (browser st) = (None, s'')"
      "int (newPageCalls s'') = int (newPageCalls (browser st)) + defaultMaxRetries"
    using retry_all_raise[of drv "link company" defaultMaxRetries "browser st"] assms(1) by blast
  then have three: "newPageCalls (snd (getFoundersDataWithRetries drv (link company)
        defaultMaxRetries (browser st))) = newPageCalls (browser st) + 3"
    by (simp add: defaultMaxRetries_def)
  from s'' have "fst (getFoundersDataWithRetries drv (link company) defaultMaxRetries (browser st)) = None"
    by simp
  then have "enrichCompany stringify drv st company
      = st\<lparr>visited := visited st @ [company],
            browser := snd (getFoundersDataWithRetries drv (link company)
                              defaultMaxRetries (browser st))\<rparr>"
    by (rule enrichCompany_absent)
  then show ?thesis using s' three by (simp add: enrichAll_Cons)
qed

theorem retry_exhaustion_witness:
  "getFoundersDataWithRetries (\<lambda>k l. if l = ''link2'' then GotoError
                                       else Cards [Card (Some ''Jo'') (Some [Some ''https://x.com/jo''])] True)
      ''link2'' 3 freshSession
     = (None, \<lparr>newPageCalls = 3, pagesOpened = 3, pagesClosed = 0\<rparr>)
   \<and> chunks (enrichAll (\<lambda>c. ''{'' @ name c @ ''}'')
        (\<lambda>k l. if l = ''link2'' then GotoError
                else Cards [Card (Some ''Jo'') (Some [Some ''https://x.com/jo''])] True)
        \<lparr>visited = [], chunks = [''[\<newline>''], browser = freshSession\<rparr>
        [\<lparr>name = ''B'', location = ''LocY'', link = ''link2'', founders = []\<rparr>,
         \<lparr>name = ''A'', location = ''LocX'', link = ''link1'', founders = []\<rparr>])
     = [''[\<newline>'', ''{A},\<newline>'']"
proof -
  let ?drv = "\<lambda>(k::nat) l. if l = ''link2'' then GotoError
                else Cards [Card (Some ''Jo'') (Some [Some ''https://x.com/jo''])] True"
  let ?b = "\<lparr>name = ''B'', location = ''LocY'', link = ''link2'', founders = []\<rparr>"
  let ?a = "\<lparr>name = ''A'', location = ''LocX'', link = ''link1'', founders = []\<rparr>"
  let ?st = "\<lparr>visited = [], chunks = [''[\<newline>''], browser = freshSession\<rparr>"
  have fails: "\<forall>k t. fst (fetchAttempt (?drv k (link ?b)) t) = Raised"
    by (simp add: fetchAttempt_def)
  have nonneg: "(0::int) \<le> 3" by simp
  have run: "getFoundersDataWithRetries ?drv ''link2'' 3 freshSession
     = (None, \<lparr>newPageCalls = 3, pagesOpened = 3, pagesClosed = 0\<rparr>)"
    by (simp add: getFoundersDataWithRetries_def freshSession_def
      retryLoop.simps fetchAttempt_def pageOpened_def)
  have rest: "chunks (enrichAll (\<lambda>c. ''{'' @ name c @ ''}'') ?drv
       (?st\<lparr>visited := visited ?st @ [?b],
             browser := snd (getFoundersDataWithRetries ?drv (link ?b) defaultMaxRetries (browser ?st))\<rparr>)
       [?a]) = [''[\<newline>'', ''{A},\<newline>'']"
    by (simp add: enrichAll_def enrichCompany_def defaultMaxRetries_def
      getFoundersDataWithRetries_def freshSession_def
      retryLoop.simps fetchAttempt_def pageOpened_def)
  from retry_exhaustion [where drv = ?drv and company = ?b and maxRetries = 3
        and s = freshSession and stringify = "\<lambda>c. ''{'' @ name c @ ''}''" and st = ?st
        and rest = "[?a]"]
    fails nonneg
  have "enrichAll (\<lambda>c. ''{'' @ name c @ ''}'') ?drv ?st [?b, ?a]
      = enrichAll (\<lambda>c. ''{'' @ name c @ ''}'') ?drv
       (?st\<lparr>visited := visited ?st @ [?b],
             browser := snd (getFoundersDataWithRetries ?drv (link ?b) defaultMaxRetries (browser ?st))\<rparr>)
       [?a]"
    by blast
  with rest run show ?thesis by simp
qed

section \<open>The output file\<close>

lemma json_digits_last: "json_digits ds \<Longrightarrow> ds \<noteq> [] \<and> json_digit (last ds)"
  by (auto simp: json_digits_def list_all_iff)

lemma json_number_last:
  assumes "json_number s"
  shows "s \<noteq> [] \<and> json_digit (last s)"
proof -
  from assms obtain sg i f e where s: "s = sg @ i @ f @ e" and i: "json_int i"
    and f: "json_frac f" and e: "json_exp e"
    by (auto simp: json_number_def)
  have i': "i \<noteq> [] \<and> json_digit (last i)"
    using i json_digits_last by (auto simp: json_int_def json_digit_def)
  have f': "f = [] \<or> (f \<noteq> [] \<and> json_digit (last f))"
    using f json_digits_last by (auto simp: json_frac_def)
  have e': "e = [] \<or> (e \<noteq> [] \<and> json_digit (last e))"
    using e json_digits_last by (auto simp: json_exp_def)
  from i' f' e' show ?thesis unfolding s by auto
qed

lemma json_value_last:
  assumes "json_value v"
  shows "v \<noteq> [] \<and> \<not> json_ws_char (last v) \<and> last v \<noteq> CHR '',''"
  using assms
proof (cases rule: json_value.cases)
  case Number
  then show ?thesis using json_number_last[of v]
    by (auto simp: json_digit_def json_ws_char_def)
next
  case String
  then show ?thesis by (auto simp: json_string_def json_ws_char_def)
qed (auto simp: json_ws_char_def)

lemma json_elements_end:
  "json_elements es \<Longrightarrow>
     \<exists>u w. es = u @ w \<and> json_ws w \<and> u \<noteq> [] \<and> \<not> json_ws_char (last u) \<and> last u \<noteq> CHR '',''"
proof (induction es rule: json_value_json_elements_json_members.inducts(2)
         [where ?P1.0 = "\<lambda>_. True" and ?P3.0 = "\<lambda>_. True"])
  case (Element w1 v w2)
  from json_value_last[OF Element(2)]
  have "w1 @ v \<noteq> [] \<and> \<not> json_ws_char (last (w1 @ v)) \<and> last (w1 @ v) \<noteq> CHR '',''"
    by simp
  with Element(4) show ?case
    by (metis append.assoc)
next
  case (Elements w1 v w2 es)
  then obtain u w where uw: "es = u @ w" "json_ws w" "u \<noteq> []"
      "\<not> json_ws_char (last u)" "last u \<noteq> CHR '',''"
    by blast
  let ?u = "w1 @ v @ w2 @ '','' @ u"
  have "w1 @ v @ w2 @ '','' @ es = ?u @ w" using uw by simp
  moreover have "?u \<noteq> [] \<and> \<not> json_ws_char (last ?u) \<and> last ?u \<noteq> CHR '',''"
    using uw by simp
  ultimately show ?case using uw(2) by blast
qed simp_all

lemma value_before_bracket:
  assumes "json_value v" and "v = x @ '']''"
  shows "\<exists>u w. x = u @ w \<and> json_ws w \<and> u \<noteq> [] \<and> \<not> json_ws_char (last u) \<and> last u \<noteq> CHR '',''"
  using assms(1)
proof (cases rule: json_value.cases)
  case Null
  with assms(2) have "last (x @ '']'') = last ''null''" by simp
  then show ?thesis by simp
next
  case JTrue
  with assms(2) have "last (x @ '']'') = last ''true''" by simp
  then show ?thesis by simp
next
  case JFalse
  with assms(2) have "last (x @ '']'') = last ''false''" by simp
  then show ?thesis by simp
next
  case Number
  then have "json_digit (last v)" using json_number_last by blast
  then show ?thesis using assms(2) by (simp add: json_digit_def)
next
  case String
  then obtain body where "v = CHR 0x22 # body @ [CHR 0x22]" by (auto simp: json_string_def)
  then have "last v = CHR 0x22" by simp
  then show ?thesis using assms(2) by simp
next
  case (EmptyArray w)
  with assms(2) have "x = ''['' @ w" by simp
  moreover have "\<not> json_ws_char (CHR ''['')" by (simp add: json_ws_char_def)
  ultimately show ?thesis using EmptyArray(2) by (intro exI[of _ "''[''"] exI[of _ w]) simp
next
  case (Array es)
  with assms(2) have x: "x = ''['' @ es" by simp
  from Array(2) obtain u w where uw: "es = u @ w" "json_ws w" "u \<noteq> []"
      "\<not> json_ws_char (last u)" "last u \<noteq> CHR '',''"
    using json_elements_end by blast
  show ?thesis using x uw by (intro exI[of _ "''['' @ u"] exI[of _ w]) simp
next
  case (EmptyObject w)
  with assms(2) have "last (x @ '']'') = last (''{'' @ w @ ''}'')" by simp
  then show ?thesis by simp
next
  case (Object ms)
  with assms(2) have "last (x @ '']'') = last (''{'' @ ms @ ''}'')" by simp
  then show ?thesis by simp
qed

lemma last_significant:
  assumes "u @ w = p @ [c, d]" and "json_ws w" and "u \<noteq> []"
      and "\<not> json_ws_char (last u)" and "json_ws_char d" and "\<not> json_ws_char c"
  shows "last u = c"
proof (cases w rule: rev_cases)
  case Nil
  with assms(1) have "last u = last (p @ [c, d])" by simp
  then have "last u = d" by simp
  with assms(4,5) show ?thesis by simp
next
  case (snoc w' z)
  with assms(1) have eq: "u @ w' = p @ [c]" by simp
  show ?thesis
  proof (cases w' rule: rev_cases)
    case Nil
    with eq have "last u = last (p @ [c])" by simp
    then show ?thesis by simp
  next
    case (snoc w'' y)
    with eq have "y = c" by simp
    moreover have "json_ws_char y"
      using assms(2) \<open>w = w' @ [z]\<close> snoc by (simp add: json_ws_def)
    ultimately show ?thesis using assms(6) by simp
  qed
qed

lemma trailing_comma_invalid: "\<not> json_text (p @ '',\<newline>]'')"
proof
  assume "json_text (p @ '',\<newline>]'')"
  then obtain w1 v w2 where s: "p @ '',\<newline>]'' = w1 @ v @ w2"
      and w1: "json_ws w1" and v: "json_value v" and w2: "json_ws w2"
    by (auto simp: json_text_def)
  have vne: "v \<noteq> []" using json_value_last[OF v] by simp
  have "w2 = []"
  proof (rule ccontr)
    assume "w2 \<noteq> []"
    then have "last (w1 @ v @ w2) = last w2" by simp
    moreover have "last (p @ '',\<newline>]'') = CHR '']''" by simp
    ultimately have "last w2 = CHR '']''" using s by simp
    moreover have "json_ws_char (last w2)"
      using w2 \<open>w2 \<noteq> []\<close> by (simp add: json_ws_def list_all_iff)
    ultimately show False by (simp add: json_ws_char_def)
  qed
  with s have s': "(p @ '',\<newline>'') @ '']'' = (w1 @ butlast v) @ [last v]"
    using vne by simp
  then have x: "p @ '',\<newline>'' = w1 @ butlast v" and "last v = CHR '']''"
    by simp_all
  then have "v = butlast v @ '']''" using vne by (metis append_butlast_last_id)
  with v obtain u w where uw: "butlast v = u @ w" "json_ws w" "u \<noteq> []"
      "\<not> json_ws_char (last u)" "last u \<noteq> CHR '',''"
    using value_before_bracket by blast
  have "(w1 @ u) @ w = p @ [CHR '','', CHR 0x0A]" using x uw(1) by simp
  moreover have "w1 @ u \<noteq> []" "\<not> json_ws_char (last (w1 @ u))" using uw by simp_all
  moreover have "json_ws_char (CHR 0x0A)" "\<not> json_ws_char (CHR '','')"
    by (simp_all add: json_ws_char_def)
  ultimately have "last (w1 @ u) = CHR '',''"
    using uw(2) by (intro last_significant)
  then show False using uw by simp
qed

lemma empty_array_valid: "json_text ''[\<newline>]''"
proof -
  have "json_ws ''\<newline>''" by (simp add: json_ws_def json_ws_char_def)
  then have "json_value (''['' @ ''\<newline>'' @ '']'')" by (rule json_value_json_elements_json_members.EmptyArray)
  moreover have "json_ws []" by (simp add: json_ws_def)
  ultimately have "\<exists>w1 v w2. ''[\<newline>]'' = w1 @ v @ w2 \<and> json_ws w1 \<and> json_value v \<and> json_ws w2"
    by (intro exI[of _ "[]"] exI[of _ "''['' @ ''\<newline>'' @ '']''"]) simp
  then show ?thesis by (simp add: json_text_def)
qed

lemma fetch_Some_nonempty:
  "fst (getFoundersDataWithRetries drv l maxRetries s) = Some fd \<Longrightarrow> fd \<noteq> []"
  using retryLoop_Some_nonempty[of drv l maxRetries 0 s fd
      "snd (getFoundersDataWithRetries drv l maxRetries s)"]
  by (simp add: getFoundersDataWithRetries_def prod_eq_iff)

lemma identityKey_founders_update: "identityKey (c\<lparr>founders := fd\<rparr>) = identityKey c"
  by (simp add: identityKey_def)

lemma enrichAll_shape:
  assumes "\<forall>c \<in> set cl. founders c = []"
  shows "\<exists>vs. visited (enrichAll stringify drv st cl) = visited st @ vs
            \<and> map identityKey vs = map identityKey cl
            \<and> chunks (enrichAll stringify drv st cl)
                = chunks st @ map (\<lambda>c. stringify c @ '',\<newline>'') (filter (\<lambda>c. founders c \<noteq> []) vs)"
  using assms
proof (induction cl arbitrary: st)
  case Nil
  show ?case by (simp add: enrichAll_def)
next
  case (Cons c cl)
  let ?st1 = "enrichCompany stringify drv st c"
  from Cons.prems have rest: "\<forall>c \<in> set cl. founders c = []" and c: "founders c = []"
    by simp_all
  from Cons.IH[OF rest, of ?st1] obtain vs where vs:
      "visited (enrichAll stringify drv ?st1 cl) = visited ?st1 @ vs"
      "map identityKey vs = map identityKey cl"
      "chunks (enrichAll stringify drv ?st1 cl)
         = chunks ?st1 @ map (\<lambda>c. stringify c @ '',\<newline>'') (filter (\<lambda>c. founders c \<noteq> []) vs)"
    by blast
  show ?case
  proof (cases "fst (getFoundersDataWithRetries drv (link c) defaultMaxRetries (browser st))")
    case None
    have "visited ?st1 = visited st @ [c]" "chunks ?st1 = chunks st"
      by (simp_all add: enrichCompany_absent[OF None])
    with vs c show ?thesis
      by (intro exI[of _ "c # vs"]) (simp add: enrichAll_Cons)
  next
    case (Some fd)
    then have "fd \<noteq> []" by (rule fetch_Some_nonempty)
    moreover have "visited ?st1 = visited st @ [c\<lparr>founders := fd\<rparr>]"
        "chunks ?st1 = chunks st @ [stringify (c\<lparr>founders := fd\<rparr>) @ '',\<newline>'']"
      by (simp_all add: enrichCompany_found[OF Some])
    ultimately show ?thesis using vs
      by (intro exI[of _ "c\<lparr>founders := fd\<rparr> # vs"])
         (simp add: enrichAll_Cons identityKey_founders_update)
  qed
qed

lemma collect_founders_empty: "\<forall>c \<in> set (collectCompanies ys). founders c = []"
  using collect_members by (fastforce simp: withEmptyFounders_def)

lemma main_Completed:
  assumes "main stringify w = Completed st"
  shows "launches w \<and> status (getCompanies (listing w)) = Halted
       \<and> st = (enrichAll stringify (detail w)
                 \<lparr>visited = [], chunks = [''[\<newline>''], browser = freshSession\<rparr>
                 (collectCompanies (yielded (getCompanies (listing w)))))
              \<lparr>chunks := chunks (enrichAll stringify (detail w)
                 \<lparr>visited = [], chunks = [''[\<newline>''], browser = freshSession\<rparr>
                 (collectCompanies (yielded (getCompanies (listing w))))) @ ['']'']\<rparr>"
  using assms
  by (auto simp: main_def Let_def split: if_splits traversalStatus.splits)

lemma completed_stream_shape:
  assumes "main stringify w = Completed st"
  shows "fileBytes st
           = ''[\<newline>'' @ concat (map (\<lambda>c. stringify c @ '',\<newline>'')
                                  (filter (\<lambda>c. founders c \<noteq> []) (visited st))) @ '']''
       \<and> map identityKey (visited st)
           = map identityKey (collectCompanies (yielded (getCompanies (listing w))))
       \<and> length (filter (\<lambda>c. founders c \<noteq> []) (visited st))
           = length (filter
               (\<lambda>k. fetchedAt stringify (detail w)
                      \<lparr>visited = [], chunks = [''[\<newline>''], browser = freshSession\<rparr>
                      (collectCompanies (yielded (getCompanies (listing w)))) k \<noteq> None)
               [0..<length (collectCompanies (yielded (getCompanies (listing w))))])
       \<and> (filter (\<lambda>c. founders c \<noteq> []) (visited st) \<noteq> [] \<longrightarrow> \<not> json_text (fileBytes st))
       \<and> (filter (\<lambda>c. founders c \<noteq> []) (visited st) = [] \<longrightarrow>
             fileBytes st = ''[\<newline>]'' \<and> json_text (fileBytes st))"
proof -
  let ?cl = "collectCompanies (yielded (getCompanies (listing w)))"
  let ?init = "\<lparr>visited = [], chunks = [''[\<newline>''], browser = freshSession\<rparr>"
  let ?fin = "enrichAll stringify (detail w) ?init ?cl"
  let ?E = "filter (\<lambda>c. founders c \<noteq> []) (visited st)"
  from main_Completed[OF assms] have st: "st = ?fin\<lparr>chunks := chunks ?fin @ ['']'']\<rparr>"
    by simp
  obtain vs where vs: "visited ?fin = visited ?init @ vs" "map identityKey vs = map identityKey ?cl"
      "chunks ?fin = chunks ?init @ map (\<lambda>c. stringify c @ '',\<newline>'') (filter (\<lambda>c. founders c \<noteq> []) vs)"
    using enrichAll_shape[of ?cl stringify "detail w" ?init] collect_founders_empty by blast
  have vis: "visited st = vs" using st vs(1) by simp
  have bytes: "fileBytes st = ''[\<newline>'' @ concat (map (\<lambda>c. stringify c @ '',\<newline>'') ?E) @ '']''"
    using st vs(3) vis by (simp add: fileBytes_def)
  have order: "map identityKey (visited st) = map identityKey ?cl"
    using vis vs(2) by simp
  have "length (chunks ?fin) = length (chunks ?init) + length ?E"
    using vs(3) vis by simp
  moreover have "length (chunks ?fin)
      = length (chunks ?init)
        + length (filter (\<lambda>k. fetchedAt stringify (detail w) ?init ?cl k \<noteq> None) [0..<length ?cl])"
    by (rule enrichAll_chunks_count)
  ultimately have count: "length ?E
      = length (filter (\<lambda>k. fetchedAt stringify (detail w) ?init ?cl k \<noteq> None) [0..<length ?cl])"
    by simp
  have invalid: "\<not> json_text (fileBytes st)" if "?E \<noteq> []"
  proof -
    from that obtain E' e where "?E = E' @ [e]" by (cases ?E rule: rev_cases) auto
    then have "fileBytes st
        = (''[\<newline>'' @ concat (map (\<lambda>c. stringify c @ '',\<newline>'') E') @ stringify e) @ '',\<newline>]''"
      using bytes by simp
    then show ?thesis using trailing_comma_invalid by metis
  qed
  have valid: "fileBytes st = ''[\<newline>]'' \<and> json_text (fileBytes st)" if "?E = []"
    using that bytes empty_array_valid by simp
  from bytes order count invalid valid show ?thesis by blast
qed

lemma main_completes:
  assumes "launches w" and "status (getCompanies (listing w)) = Halted"
  shows "main stringify w
     = Completed ((enrichAll stringify (detail w)
                 \<lparr>visited = [], chunks = [''[\<newline>''], browser = freshSession\<rparr>
                 (collectCompanies (yielded (getCompanies (listing w)))))
              \<lparr>chunks := chunks (enrichAll stringify (detail w)
                 \<lparr>visited = [], chunks = [''[\<newline>''], browser = freshSession\<rparr>
                 (collectCompanies (yielded (getCompanies (listing w))))) @ ['']'']\<rparr>)"
  using assms by (simp add: main_def Let_def)

text \<open>
  C9. When the browser launches and the traversal halts, \<open>main\<close> completes, and the
  bytes of the file are \<open>[\<close> and a newline, then for each enriched company (a visited
  company with founders), in the order of the collector, its serialization followed
  by a comma and a newline, then \<open>]\<close>. The companies visited are those of the
  collector, in its order, each with the founders the fetcher returned for it or left
  as it was when the fetcher returned absent; the enriched ones are as many as the
  companies for which the fetcher returned a sequence. With at least one enriched
  company the bytes are not a JSON text; with none they are \<open>[\<close>, a newline and
  \<open>]\<close>, a JSON text (the empty array).
\<close>

theorem output_stream_shape:
  assumes "launches w" and "status (getCompanies (listing w)) = Halted"
  shows "\<exists>st. main stringify w = Completed st
       \<and> visited st
           = map (\<lambda>k. case fetchedAt stringify (detail w)
                              \<lparr>visited = [], chunks = [''[\<newline>''], browser = freshSession\<rparr>
                              (collectCompanies (yielded (getCompanies (listing w)))) k of
                         Some fd \<Rightarrow>
                           (collectCompanies (yielded (getCompanies (listing w))) ! k)\<lparr>founders := fd\<rparr>
                       | None \<Rightarrow> collectCompanies (yielded (getCompanies (listing w))) ! k)
               [0..<length (collectCompanies (yielded (getCompanies (listing w))))]
       \<and> fileBytes st
           = ''[\<newline>'' @ concat (map (\<lambda>c. stringify c @ '',\<newline>'')
                                  (filter (\<lambda>c. founders c \<noteq> []) (visited st))) @ '']''
       \<and> map identityKey (visited st)
           = map identityKey (collectCompanies (yielded (getCompanies (listing w))))
       \<and> length (filter (\<lambda>c. founders c \<noteq> []) (visited st))
           = length (filter
               (\<lambda>k. fetchedAt stringify (detail w)
                      \<lparr>visited = [], chunks = [''[\<newline>''], browser = freshSession\<rparr>
                      (collectCompanies (yielded (getCompanies (listing w)))) k \<noteq> None)
               [0..<length (collectCompanies (yielded (getCompanies (listing w))))])
       \<and> (filter (\<lambda>c. founders c \<noteq> []) (visited st) \<noteq> [] \<longrightarrow> \<not> json_text (fileBytes st))
       \<and> (filter (\<lambda>c. founders c \<noteq> []) (visited st) = [] \<longrightarrow>
             fileBytes st = ''[\<newline>]'' \<and> json_text (fileBytes st))"
proof -
  let ?cl = "collectCompanies (yielded (getCompanies (listing w)))"
  let ?init = "\<lparr>visited = [], chunks = [''[\<newline>''], browser = freshSession\<rparr>"
  let ?fin = "enrichAll stringify (detail w) ?init ?cl"
  define st where "st = ?fin\<lparr>chunks := chunks ?fin @ ['']'']\<rparr>"
  have run: "main stringify w = Completed st"
    unfolding st_def using assms by (rule main_completes)
  have vis: "visited st
      = map (\<lambda>k. case fetchedAt stringify (detail w) ?init ?cl k of
                    Some fd \<Rightarrow> (?cl ! k)\<lparr>founders := fd\<rparr> | None \<Rightarrow> ?cl ! k) [0..<length ?cl]"
    using enrichAll_visited[of stringify "detail w" ?init ?cl] by (simp add: st_def)
  from completed_stream_shape[OF run] run vis show ?thesis
    by blast
qed

theorem output_stream_shape_witness:
  "main (\<lambda>c. ''{'' @ name c @ ''}'')
     \<lparr>launches = True,
      listing = [\<lparr>selectorFound = True,
                  companies =
                    [\<lparr>nameText = Some ''A'', locationText = Some ''LocX'', hrefAttr = Some ''/a''\<rparr>,
                     \<lparr>nameText = Some ''A'', locationText = Some ''LocX'', hrefAttr = Some ''/a''\<rparr>,
                     \<lparr>nameText = Some ''B'', locationText = Some ''LocY'', hrefAttr = Some ''/b''\<rparr>],
                  scrollHeight = 0\<rparr>],
      detail = (\<lambda>k l. if l = ''https://ycombinator.com/a''
                  then Cards [Card (Some ''Jo'') (Some [Some ''https://x.com/jo''])] True
                  else WaitError)\<rparr>
     = Completed
        \<lparr>visited =
           [\<lparr>name = ''A'', location = ''LocX'', link = ''https://ycombinator.com/a'',
              founders = [\<lparr>founderName = ''Jo'', links = [''https://x.com/jo'']\<rparr>]\<rparr>,
            \<lparr>name = ''B'', location = ''LocY'', link = ''https://ycombinator.com/b'',
              founders = []\<rparr>],
         chunks = [''[\<newline>'', ''{A},\<newline>'', '']''],
         browser = \<lparr>newPageCalls = 4, pagesOpened = 4, pagesClosed = 1\<rparr>\<rparr>
   \<and> fileBytes
        \<lparr>visited =
           [\<lparr>name = ''A'', location = ''LocX'', link = ''https://ycombinator.com/a'',
              founders = [\<lparr>founderName = ''Jo'', links = [''https://x.com/jo'']\<rparr>]\<rparr>,
            \<lparr>name = ''B'', location = ''LocY'', link = ''https://ycombinator.com/b'',
              founders = []\<rparr>],
         chunks = [''[\<newline>'', ''{A},\<newline>'', '']''],
         browser = \<lparr>newPageCalls = 4, pagesOpened = 4, pagesClosed = 1\<rparr>\<rparr>
       = ''[\<newline>{A},\<newline>]''
   \<and> \<not> json_text ''[\<newline>{A},\<newline>]''
   \<and> main (\<lambda>c. ''{'' @ name c @ ''}'')
        \<lparr>launches = True,
         listing = [\<lparr>selectorFound = True, companies = [], scrollHeight = 0\<rparr>],
         detail = (\<lambda>k l. WaitError)\<rparr>
      = Completed \<lparr>visited = [], chunks = [''[\<newline>'', '']''], browser = freshSession\<rparr>
   \<and> json_text ''[\<newline>]''"
proof -
  let ?f = "\<lambda>c::Company. ''{'' @ name c @ ''}''"
  let ?a = "\<lparr>nameText = Some ''A'', locationText = Some ''LocX'', hrefAttr = Some ''/a''\<rparr>"
  let ?b = "\<lparr>nameText = Some ''B'', locationText = Some ''LocY'', hrefAttr = Some ''/b''\<rparr>"
  let ?w = "\<lparr>launches = True,
      listing = [\<lparr>selectorFound = True, companies = [?a, ?a, ?b], scrollHeight = 0\<rparr>],
      detail = (\<lambda>(k::nat) l. if l = ''https://ycombinator.com/a''
                  then Cards [Card (Some ''Jo'') (Some [Some ''https://x.com/jo''])] True
                  else WaitError)\<rparr>"
  let ?done = "\<lparr>visited =
        [\<lparr>name = ''A'', location = ''LocX'', link = ''https://ycombinator.com/a'',
           founders = [\<lparr>founderName = ''Jo'', links = [''https://x.com/jo'']\<rparr>]\<rparr>,
         \<lparr>name = ''B'', location = ''LocY'', link = ''https://ycombinator.com/b'', founders = []\<rparr>],
      chunks = [''[\<newline>'', ''{A},\<newline>'', '']''],
      browser = \<lparr>newPageCalls = 4, pagesOpened = 4, pagesClosed = 1\<rparr>\<rparr>"
  let ?quiet = "\<lparr>launches = True,
         listing = [\<lparr>selectorFound = True, companies = [], scrollHeight = 0\<rparr>],
         detail = (\<lambda>(k::nat) (l::string). WaitError)\<rparr>"
  let ?empty = "\<lparr>visited = [], chunks = [''[\<newline>'', '']''], browser = freshSession\<rparr>"
  have up: "launches ?w" and halted: "status (getCompanies (listing ?w)) = Halted"
    by (simp_all add: getCompanies_def)
  have up0: "launches ?quiet" and halted0: "status (getCompanies (listing ?quiet)) = Halted"
    by (simp_all add: getCompanies_def)
  have run: "main ?f ?w = Completed ?done"
    by (simp add: run_simps)
  have some: "filter (\<lambda>c. founders c \<noteq> []) (visited ?done) \<noteq> []"
    by simp
  have bytes: "fileBytes ?done = ''[\<newline>{A},\<newline>]''"
    by (simp add: fileBytes_def)
  have run0: "main ?f ?quiet = Completed ?empty"
    by (simp add: run_simps)
  have none: "filter (\<lambda>c. founders c \<noteq> []) (visited ?empty) = []"
    by simp
  have bytes0: "fileBytes ?empty = ''[\<newline>]''"
    by (simp add: fileBytes_def)
  from output_stream_shape [OF up halted, of ?f] obtain st where
      "main ?f ?w = Completed st"
      "filter (\<lambda>c. founders c \<noteq> []) (visited st) \<noteq> [] \<longrightarrow> \<not> json_text (fileBytes st)"
    by blast
  moreover from this(1) run have "st = ?done" by simp
  ultimately have bad: "\<not> json_text (fileBytes ?done)" using some by blast
  from output_stream_shape [OF up0 halted0, of ?f] obtain st' where
      "main ?f ?quiet = Completed st'"
      "filter (\<lambda>c. founders c \<noteq> []) (visited st') = [] \<longrightarrow>
         fileBytes st' = ''[\<newline>]'' \<and> json_text (fileBytes st')"
    by blast
  moreover from this(1) run0 have "st' = ?empty" by simp
  ultimately have good: "json_text (fileBytes ?empty)" using none by blast
  from run bytes bad run0 bytes0 good show ?thesis by simp
qed

end
